theory Spec2Isabelle
  imports Main "HOL-Library.Sublist"
begin

section \<open>JavaScript string primitives used by the scripts\<close>

text \<open>
  A JavaScript string is modelled as an HOL \<open>string\<close>: a list of code units, here the
  code units below 256.  The scripts only ever compare against ASCII markers, split at
  the line feed and strip leading white space, so the model follows them unit by unit.
\<close>

text \<open>The regular expression class \<^verbatim>\<open>\s\<close>, on the code units below 256: tab, line feed,
  vertical tab, form feed, carriage return, space and the no-break space.\<close>

definition js_space :: "char \<Rightarrow> bool" where
  "js_space c = (c \<in> set [CHR 0x09, CHR 0x0A, CHR 0x0B, CHR 0x0C, CHR 0x0D, CHR 0x20, CHR 0xA0])"

text \<open>\<^verbatim>\<open>s.includes(t)\<close>: \<open>t\<close> occurs in \<open>s\<close> as a contiguous block.\<close>

fun js_includes :: "string \<Rightarrow> string \<Rightarrow> bool" where
  "js_includes [] t = (t = [])"
| "js_includes (c # s) t = (prefix t (c # s) \<or> js_includes s t)"

text \<open>\<^verbatim>\<open>s.split("\n")\<close>: never empty; a string without line feed is its own single line.\<close>

fun split_nl :: "string \<Rightarrow> string list" where
  "split_nl [] = [[]]"
| "split_nl (c # s) =
     (if c = CHR 0x0A then [] # split_nl s
      else (case split_nl s of [] \<Rightarrow> [[c]] | l # ls \<Rightarrow> (c # l) # ls))"

text \<open>\<^verbatim>\<open>ls.join("\n")\<close>.\<close>

fun join_nl :: "string list \<Rightarrow> string" where
  "join_nl [] = []"
| "join_nl [l] = l"
| "join_nl (l # m # ls) = l @ CHR 0x0A # join_nl (m # ls)"

text \<open>\<^verbatim>\<open>line.match(/^\s*/)[0]\<close>: the leading white space of a line.\<close>

definition leadingSpace :: "string \<Rightarrow> string" where
  "leadingSpace l = takeWhile js_space l"

section \<open>The file system, as the scripts use it\<close>

datatype fs_event = ExistsSync string | ReadFileSync string | WriteFileSync string string

record world =
  files :: "string \<rightharpoonup> string"
  events :: "fs_event list"

definition existsSync :: "string \<Rightarrow> world \<Rightarrow> bool \<times> world" where
  "existsSync p w = (files w p \<noteq> None, w\<lparr>events := events w @ [ExistsSync p]\<rparr>)"

text \<open>\<^verbatim>\<open>fs.readFileSync(p, "utf8")\<close>; \<open>None\<close> stands for the exception of a missing file.\<close>

definition readFileSync :: "string \<Rightarrow> world \<Rightarrow> string option \<times> world" where
  "readFileSync p w = (files w p, w\<lparr>events := events w @ [ReadFileSync p]\<rparr>)"

definition writeFileSync :: "string \<Rightarrow> string \<Rightarrow> world \<Rightarrow> world" where
  "writeFileSync p c w =
     w\<lparr>files := (files w)(p \<mapsto> c), events := events w @ [WriteFileSync p c]\<rparr>"

text \<open>What a call gives back: the boolean it returns, or an exception it lets escape.\<close>

datatype outcome = Returned bool | Thrown

section \<open>keychains\_android.js\<close>

definition DEFAULT_CONFIG_FILE :: string where
  "DEFAULT_CONFIG_FILE = ''./build.config.json''"

definition DEFAULT_MANIFEST_PATH :: string where
  "DEFAULT_MANIFEST_PATH = ''android/app/src/main/AndroidManifest.xml''"

text \<open>
  \<^verbatim>\<open>extractJsonArray(filePath, key)\<close>.  \<^verbatim>\<open>JSON.parse\<close> is the platform's: the parameter
  \<open>parse content key\<close> stands for the array found under \<open>key\<close> in the parsed content,
  and is \<open>[]\<close> where the content does not parse or holds no array there.
\<close>

definition extractJsonArray ::
  "(string \<Rightarrow> string \<Rightarrow> string list) \<Rightarrow> string \<Rightarrow> string \<Rightarrow> world \<Rightarrow> string list \<times> world" where
  "extractJsonArray parse filePath key w =
     (case existsSync filePath w of
        (False, w1) \<Rightarrow> ([], w1)
      | (True, w1) \<Rightarrow>
          (case readFileSync filePath w1 of
             (None, w2) \<Rightarrow> ([], w2)
           | (Some fileContent, w2) \<Rightarrow> (parse fileContent key, w2)))"

subsection \<open>The self-closing or empty queries tag\<close>

text \<open>
  The expression \<^verbatim>\<open>/<queries\s*\/>|<queries\s*><\/queries>/\<close> tried at the head of a
  string: the length of the match.  Neither \<^verbatim>\<open>/\<close> nor \<^verbatim>\<open>>\<close> is white space, so the greedy
  \<^verbatim>\<open>\s*\<close> takes all the white space there is and the first alternative is tried first.
\<close>

definition emptyQueriesAt :: "string \<Rightarrow> nat option" where
  "emptyQueriesAt s =
     (if prefix ''<queries'' s then
        (let n = 8 + length (takeWhile js_space (drop 8 s));
             r = dropWhile js_space (drop 8 s)
         in if prefix ''/>'' r then Some (n + 2)
            else if prefix ''></queries>'' r then Some (n + 11)
            else None)
      else None)"

text \<open>\<^verbatim>\<open>regex.test(content)\<close>: a match starts somewhere.\<close>

fun testEmptyQueries :: "string \<Rightarrow> bool" where
  "testEmptyQueries [] = False"
| "testEmptyQueries (c # s) = (emptyQueriesAt (c # s) \<noteq> None \<or> testEmptyQueries s)"

text \<open>\<^verbatim>\<open>content.replace(regex, "<queries>\n</queries>")\<close>: the leftmost match only.\<close>

fun replaceEmptyQueries :: "string \<Rightarrow> string" where
  "replaceEmptyQueries [] = []"
| "replaceEmptyQueries (c # s) =
     (case emptyQueriesAt (c # s) of
        Some n \<Rightarrow> ''<queries>'' @ CHR 0x0A # ''</queries>'' @ drop n (c # s)
      | None \<Rightarrow> c # replaceEmptyQueries s)"

text \<open>Lines 113 to 120: the replacement is made when the test succeeds.\<close>

definition normalizeQueries :: "string \<Rightarrow> string" where
  "normalizeQueries manifestContent =
     (if testEmptyQueries manifestContent then replaceEmptyQueries manifestContent
      else manifestContent)"

subsection \<open>Locating the anchors\<close>

text \<open>
  Lines 126 to 136.  The state is the pair \<open>(queriesOpenLine, queriesCloseLine)\<close>, with
  \<open>None\<close> for \<^verbatim>\<open>-1\<close>; \<open>i\<close> is the loop index.
\<close>

fun findQueries :: "string list \<Rightarrow> nat \<Rightarrow> nat option \<times> nat option \<Rightarrow> nat option \<times> nat option" where
  "findQueries [] i oc = oc"
| "findQueries (l # ls) i (queriesOpenLine, queriesCloseLine) =
     findQueries ls (Suc i)
       (if js_includes l ''<queries'' \<and> queriesOpenLine = None then Some i else queriesOpenLine,
        if js_includes l ''</queries>'' \<and> queriesCloseLine = None then Some i else queriesCloseLine)"

text \<open>Lines 205 to 212: the first line with an application tag.\<close>

fun findApplication :: "string list \<Rightarrow> nat \<Rightarrow> nat option" where
  "findApplication [] i = None"
| "findApplication (l # ls) i =
     (if js_includes l ''<application'' then Some i else findApplication ls (Suc i))"

subsection \<open>Rewriting the lines\<close>

text \<open>The template \<^verbatim>\<open>`${packageIndent}<package android:name="${pkg}" />`\<close>.\<close>

definition packageLine :: "string \<Rightarrow> string \<Rightarrow> string" where
  \<open>packageLine packageIndent pkg = packageIndent @ ''<package android:name="'' @ pkg @ ''" />''\<close>

text \<open>The test of lines 171 to 174 for an existing package entry.\<close>

definition isPackageEntry :: "string \<Rightarrow> bool" where
  "isPackageEntry l = (js_includes l ''<package'' \<and> js_includes l ''android:name'')"

text \<open>
  Lines 154 to 183.  The result is the sequence of lines pushed to \<open>newLines\<close> from
  index \<open>i\<close> on; \<open>inQueriesSection\<close> is the flag of the loop.
\<close>

fun rewriteQueries ::
  "nat \<Rightarrow> nat \<Rightarrow> string \<Rightarrow> string list \<Rightarrow> string list \<Rightarrow> nat \<Rightarrow> bool \<Rightarrow> string list" where
  "rewriteQueries queriesOpenLine queriesCloseLine packageIndent packages [] i inQueriesSection = []"
| "rewriteQueries queriesOpenLine queriesCloseLine packageIndent packages (l # ls) i inQueriesSection =
     (if i = queriesOpenLine then
        l # map (packageLine packageIndent) packages
          @ rewriteQueries queriesOpenLine queriesCloseLine packageIndent packages ls (Suc i) True
      else if i = queriesCloseLine then
        l # rewriteQueries queriesOpenLine queriesCloseLine packageIndent packages ls (Suc i) False
      else if inQueriesSection then
        (if isPackageEntry l then
           rewriteQueries queriesOpenLine queriesCloseLine packageIndent packages ls (Suc i) inQueriesSection
         else
           l # rewriteQueries queriesOpenLine queriesCloseLine packageIndent packages ls (Suc i) inQueriesSection)
      else
        l # rewriteQueries queriesOpenLine queriesCloseLine packageIndent packages ls (Suc i) inQueriesSection)"

text \<open>Lines 232 to 248: the new section goes in front of the application line.\<close>

fun insertQueries :: "nat \<Rightarrow> string \<Rightarrow> string list \<Rightarrow> string list \<Rightarrow> nat \<Rightarrow> string list" where
  "insertQueries applicationLine queriesIndent packages [] i = []"
| "insertQueries applicationLine queriesIndent packages (l # ls) i =
     (if i = applicationLine then
        (queriesIndent @ ''<queries>'')
          # map (packageLine (queriesIndent @ ''  '')) packages
          @ [queriesIndent @ ''</queries>'', '''']
      else [])
     @ l # insertQueries applicationLine queriesIndent packages ls (Suc i)"

subsection \<open>The edit of the manifest text\<close>

text \<open>
  Lines 108 to 253: from the content read to the content written; \<open>None\<close> where the
  function returns \<^verbatim>\<open>false\<close> before the write.
\<close>

definition updateManifest :: "string \<Rightarrow> string list \<Rightarrow> string option" where
  "updateManifest manifestContent packages =
     (if js_includes manifestContent ''<queries'' then
        (let lines = split_nl (normalizeQueries manifestContent) in
         case findQueries lines 0 (None, None) of
           (Some queriesOpenLine, Some queriesCloseLine) \<Rightarrow>
             (let queriesIndent = leadingSpace (lines ! queriesOpenLine);
                  packageIndent = queriesIndent @ ''  ''
              in Some (join_nl (rewriteQueries queriesOpenLine queriesCloseLine
                                  packageIndent packages lines 0 False)))
         | _ \<Rightarrow> None)
      else
        (let lines = split_nl manifestContent in
         case findApplication lines 0 of
           None \<Rightarrow> None
         | Some applicationLine \<Rightarrow>
             (let applicationIndent = leadingSpace (lines ! applicationLine);
                  queriesIndent = applicationIndent
              in Some (join_nl (insertQueries applicationLine queriesIndent packages lines 0)))))"

subsection \<open>setupKeychainsAndroid\<close>

text \<open>The options a caller may pass; a field left out is \<open>None\<close>.\<close>

record android_options =
  manifestPath :: "string option"
  packages :: "string list option"

text \<open>Lines 64 to 81: the packages of the options, or else those of the config file.\<close>

definition loadPackages ::
  "(string \<Rightarrow> string \<Rightarrow> string list) \<Rightarrow> string \<Rightarrow> string list \<Rightarrow> world \<Rightarrow> string list \<times> world" where
  "loadPackages parse configFile configured w =
     (if configured = [] then
        (case existsSync configFile w of
           (False, w1) \<Rightarrow> (configured, w1)
         | (True, w1) \<Rightarrow>
             (case extractJsonArray parse configFile ''keychains'' w1 of
                (configPackages, w2) \<Rightarrow>
                  (if configPackages \<noteq> [] then configPackages else configured, w2)))
      else (configured, w))"

text \<open>Line 62, \<^verbatim>\<open>{ ...defaultOptions, ...options }\<close>: a field given overrides the default.\<close>

definition config_manifestPath :: "android_options \<Rightarrow> string" where
  "config_manifestPath options =
     (case manifestPath options of None \<Rightarrow> DEFAULT_MANIFEST_PATH | Some p \<Rightarrow> p)"

definition config_packages :: "android_options \<Rightarrow> string list" where
  "config_packages options = (case packages options of None \<Rightarrow> [] | Some ps \<Rightarrow> ps)"

definition setupKeychainsAndroid ::
  "(string \<Rightarrow> string \<Rightarrow> string list) \<Rightarrow> string \<Rightarrow> android_options \<Rightarrow> world \<Rightarrow> outcome \<times> world" where
  "setupKeychainsAndroid parse configFile options w =
     (case loadPackages parse configFile (config_packages options) w of
        (pkgs, w1) \<Rightarrow>
          if pkgs = [] then (Returned False, w1)
          else
            (case existsSync (config_manifestPath options) w1 of
               (False, w2) \<Rightarrow> (Returned False, w2)
             | (True, w2) \<Rightarrow>
                 (case readFileSync (config_manifestPath options) w2 of
                    (None, w3) \<Rightarrow> (Thrown, w3)
                  | (Some manifestContent, w3) \<Rightarrow>
                      (case updateManifest manifestContent pkgs of
                         None \<Rightarrow> (Returned False, w3)
                       | Some newContent \<Rightarrow>
                           (Returned True,
                            writeFileSync (config_manifestPath options) newContent w3)))))"

section \<open>The entitlements editor (iOS keychain access groups)\<close>

definition keychainKey :: string where
  "keychainKey = ''<key>keychain-access-groups</key>''"

text \<open>The template \<^verbatim>\<open>`\t\t<string>$(AppIdentifierPrefix)${id}</string>`\<close>.\<close>

definition groupLine :: "string \<Rightarrow> string" where
  "groupLine ident = CHR 0x09 # CHR 0x09 # ''<string>$(AppIdentifierPrefix)'' @ ident @ ''</string>''"

definition arrayOpenLine :: string where
  "arrayOpenLine = CHR 0x09 # ''<array>''"

text \<open>
  Lines 169 to 189 of the module: the lines pushed to \<open>newLines\<close>, with the flag
  \<open>inKeychainSection\<close> of the loop.
\<close>

fun updateKeychainLines :: "string \<Rightarrow> string list \<Rightarrow> bool \<Rightarrow> string list \<Rightarrow> string list" where
  "updateKeychainLines bundleId keychains inKeychainSection [] = []"
| "updateKeychainLines bundleId keychains inKeychainSection (line # ls) =
     (if js_includes line keychainKey then
        line # arrayOpenLine # groupLine bundleId # map groupLine keychains
          @ updateKeychainLines bundleId keychains True ls
      else if inKeychainSection \<and> js_includes line ''</array>'' then
        line # updateKeychainLines bundleId keychains False ls
      else if \<not> inKeychainSection then
        line # updateKeychainLines bundleId keychains inKeychainSection ls
      else updateKeychainLines bundleId keychains inKeychainSection ls)"

text \<open>Lines 202 to 221: the new key and array go in front of each closing dict line.\<close>

fun addKeychainLines :: "string \<Rightarrow> string list \<Rightarrow> string list \<Rightarrow> string list" where
  "addKeychainLines bundleId keychains [] = []"
| "addKeychainLines bundleId keychains (line # ls) =
     (if js_includes line ''</dict>'' then
        (CHR 0x09 # keychainKey) # arrayOpenLine # groupLine bundleId # map groupLine keychains
          @ [CHR 0x09 # ''</array>'', line]
      else [line])
     @ addKeychainLines bundleId keychains ls"

text \<open>The text written for the text read.\<close>

definition updateEntitlements :: "string \<Rightarrow> string \<Rightarrow> string list \<Rightarrow> string" where
  "updateEntitlements content bundleId keychains =
     (let lines = split_nl content in
      if js_includes content keychainKey
      then join_nl (updateKeychainLines bundleId keychains False lines)
      else join_nl (addKeychainLines bundleId keychains lines))"

text \<open>\<^verbatim>\<open>updateEntitlementsFile\<close>: a failed read is caught and answered with \<^verbatim>\<open>false\<close>.\<close>

definition updateEntitlementsFile :: "string \<Rightarrow> string \<Rightarrow> string list \<Rightarrow> world \<Rightarrow> bool \<times> world" where
  "updateEntitlementsFile filePath bundleId keychains w =
     (case readFileSync filePath w of
        (None, w1) \<Rightarrow> (False, w1)
      | (Some content, w1) \<Rightarrow>
          (True, writeFileSync filePath (updateEntitlements content bundleId keychains) w1))"

section \<open>Notions used to state the properties\<close>

text \<open>The index, counted from \<open>i\<close>, of the first line that includes \<open>t\<close>.\<close>

fun firstIncluding :: "string \<Rightarrow> string list \<Rightarrow> nat \<Rightarrow> nat option" where
  "firstIncluding t [] i = None"
| "firstIncluding t (l # ls) i = (if js_includes l t then Some i else firstIncluding t ls (Suc i))"

text \<open>The writes among the recorded file system events.\<close>

fun isWrite :: "fs_event \<Rightarrow> bool" where
  "isWrite (WriteFileSync p c) = True"
| "isWrite _ = False"

section \<open>Facts about the string primitives\<close>

text \<open>Inclusion is the existence of a decomposition around the block.\<close>

lemma js_includes_iff: "js_includes s t \<longleftrightarrow> (\<exists>a b. s = a @ t @ b)"
proof (induction s)
  case Nil
  show ?case by auto
next
  case (Cons c s)
  show ?case
  proof
    assume "js_includes (c # s) t"
    then consider "prefix t (c # s)" | "js_includes s t" by auto
    then show "\<exists>a b. c # s = a @ t @ b"
    proof cases
      case 1
      then obtain b where "c # s = t @ b" by (auto simp: prefix_def)
      then have "c # s = [] @ t @ b" by simp
      then show ?thesis by blast
    next
      case 2
      then obtain a b where "s = a @ t @ b" using Cons.IH by blast
      then have "c # s = (c # a) @ t @ b" by simp
      then show ?thesis by blast
    qed
  next
    assume "\<exists>a b. c # s = a @ t @ b"
    then obtain a b where ab: "c # s = a @ t @ b" by blast
    show "js_includes (c # s) t"
    proof (cases a)
      case Nil
      with ab have "prefix t (c # s)" by (simp add: prefix_def)
      then show ?thesis by simp
    next
      case (Cons d a')
      with ab have "s = a' @ t @ b" by simp
      then have "js_includes s t" using Cons.IH by blast
      then show ?thesis by simp
    qed
  qed
qed

lemma js_includes_appendI1: "js_includes s t \<Longrightarrow> js_includes (s @ u) t"
  unfolding js_includes_iff by (metis append.assoc)

lemma js_includes_appendI2: "js_includes s t \<Longrightarrow> js_includes (u @ s) t"
  unfolding js_includes_iff by (metis append.assoc)

text \<open>Splitting and joining are inverse to each other on lines without line feed.\<close>

lemma split_nl_nonempty: "split_nl s \<noteq> []"
  by (induction s) (auto split: list.splits)

lemma join_split_nl: "join_nl (split_nl s) = s"
proof (induction s)
  case Nil show ?case by simp
next
  case (Cons c s)
  obtain l ls where sp: "split_nl s = l # ls"
    using split_nl_nonempty by (cases "split_nl s") auto
  with Cons show ?case by (cases ls) auto
qed

lemma split_nl_no_newline: "l \<in> set (split_nl s) \<Longrightarrow> CHR 0x0A \<notin> set l"
proof (induction s arbitrary: l)
  case Nil then show ?case by simp
next
  case (Cons c s)
  obtain m ms where sp: "split_nl s = m # ms"
    using split_nl_nonempty by (cases "split_nl s") auto
  from Cons.IH sp have m: "CHR 0x0A \<notin> set m" and ms: "\<And>x. x \<in> set ms \<Longrightarrow> CHR 0x0A \<notin> set x"
    by auto
  from Cons.prems sp m ms show ?case by (auto split: if_splits)
qed

lemma split_nl_line: "CHR 0x0A \<notin> set l \<Longrightarrow> split_nl l = [l]"
  by (induction l) auto

lemma split_nl_append_newline:
  "CHR 0x0A \<notin> set l \<Longrightarrow> split_nl (l @ CHR 0x0A # s) = l # split_nl s"
  by (induction l) auto

lemma split_join_nl:
  "ls \<noteq> [] \<Longrightarrow> (\<forall>l\<in>set ls. CHR 0x0A \<notin> set l) \<Longrightarrow> split_nl (join_nl ls) = ls"
proof (induction ls rule: join_nl.induct)
  case 1 then show ?case by simp
next
  case (2 l) then show ?case by (simp add: split_nl_line)
next
  case (3 l m ls)
  then show ?case by (simp add: split_nl_append_newline)
qed

text \<open>What a line includes, the whole text includes.\<close>

lemma join_nl_includes: "l \<in> set ls \<Longrightarrow> js_includes l t \<Longrightarrow> js_includes (join_nl ls) t"
proof (induction ls rule: join_nl.induct)
  case 1 then show ?case by simp
next
  case (2 l') then show ?case by simp
next
  case (3 l' m ls)
  from "3.prems" consider "l = l'" | "l \<in> set (m # ls)" by auto
  then show ?case
  proof cases
    case 1
    with "3.prems" show ?thesis by (simp add: js_includes_appendI1)
  next
    case 2
    with 3 have "js_includes (join_nl (m # ls)) t" by blast
    then have "js_includes (CHR 0x0A # join_nl (m # ls)) t" by simp
    then show ?thesis by (simp add: js_includes_appendI2)
  qed
qed

lemma split_nl_includes: "l \<in> set (split_nl s) \<Longrightarrow> js_includes l t \<Longrightarrow> js_includes s t"
  using join_nl_includes [of l "split_nl s" t] by (simp add: join_split_nl)

text \<open>A block without line feed that the text includes lies on one of its lines.\<close>

lemma split_nl_first_prefix:
  "prefix t s \<Longrightarrow> CHR 0x0A \<notin> set t \<Longrightarrow> prefix t (hd (split_nl s))"
proof (induction t arbitrary: s)
  case Nil
  show ?case by simp
next
  case (Cons d t)
  from Cons.prems obtain s' where s: "s = d # s'" and p: "prefix t s'"
    by (cases s) auto
  from Cons.prems have d: "d \<noteq> CHR 0x0A" and t: "CHR 0x0A \<notin> set t" by auto
  obtain l ls where sp: "split_nl s' = l # ls"
    using split_nl_nonempty by (cases "split_nl s'") auto
  from Cons.IH [OF p t] sp have "prefix t l" by simp
  with s d sp show ?case by simp
qed

lemma split_nl_includes_line:
  "js_includes s t \<Longrightarrow> CHR 0x0A \<notin> set t \<Longrightarrow> \<exists>l\<in>set (split_nl s). js_includes l t"
proof (induction s)
  case Nil
  then show ?case by simp
next
  case (Cons c s)
  obtain l0 ls where sp: "split_nl s = l0 # ls"
    using split_nl_nonempty by (cases "split_nl s") auto
  from Cons.prems(1) consider "prefix t (c # s)" | "js_includes s t" by auto
  then show ?case
  proof cases
    case 1
    have "prefix t (hd (split_nl (c # s)))"
      using 1 Cons.prems(2) by (rule split_nl_first_prefix)
    moreover have "hd (split_nl (c # s)) \<in> set (split_nl (c # s))"
      using split_nl_nonempty [of "c # s"] by (rule hd_in_set)
    moreover have "js_includes l t" if "prefix t l" for l
      using that by (cases l) simp_all
    ultimately show ?thesis by blast
  next
    case 2
    from Cons.IH [OF this Cons.prems(2)] obtain l where l: "l \<in> set (split_nl s)" "js_includes l t"
      by blast
    show ?thesis
    proof (cases "c = CHR 0x0A")
      case True
      with l show ?thesis by auto
    next
      case False
      from l sp consider "l = l0" | "l \<in> set ls" by auto
      then show ?thesis
      proof cases
        case 1
        with l have "js_includes (c # l0) t" by simp
        with False sp show ?thesis by simp
      next
        case 2
        with l False sp show ?thesis by auto
      qed
    qed
  qed
qed

section \<open>The scans and rewrites in closed form\<close>

text \<open>Both searches return the first line that includes the marker.\<close>

lemma findApplication_first: "findApplication ls i = firstIncluding ''<application'' ls i"
  by (induction ls arbitrary: i) auto

lemma findQueries_first:
  "findQueries ls i (a, b) =
     (case a of None \<Rightarrow> firstIncluding ''<queries'' ls i | Some x \<Rightarrow> Some x,
      case b of None \<Rightarrow> firstIncluding ''</queries>'' ls i | Some y \<Rightarrow> Some y)"
proof (induction ls arbitrary: i a b)
  case Nil
  show ?case by (simp split: option.splits)
next
  case (Cons l ls)
  show ?case by (cases a; cases b) (simp_all add: Cons.IH)
qed

lemma firstIncluding_append:
  "\<forall>x\<in>set pre. \<not> js_includes x t \<Longrightarrow>
   firstIncluding t (pre @ ls) i = firstIncluding t ls (i + length pre)"
  by (induction pre arbitrary: i) auto

lemma firstIncluding_None: "firstIncluding t ls i = None \<longleftrightarrow> (\<forall>x\<in>set ls. \<not> js_includes x t)"
  by (induction ls arbitrary: i) auto

lemma firstIncluding_SomeD:
  "firstIncluding t ls i = Some k \<Longrightarrow>
   \<exists>pre l post. ls = pre @ l # post \<and> k = i + length pre \<and> js_includes l t
      \<and> (\<forall>x\<in>set pre. \<not> js_includes x t)"
proof (induction ls arbitrary: i)
  case Nil
  then show ?case by simp
next
  case (Cons l ls)
  show ?case
  proof (cases "js_includes l t")
    case True
    with Cons.prems have "k = i" by simp
    with True have "l # ls = [] @ l # ls \<and> k = i + length ([]::string list) \<and> js_includes l t
        \<and> (\<forall>x\<in>set ([]::string list). \<not> js_includes x t)" by simp
    then show ?thesis by blast
  next
    case False
    with Cons.prems have "firstIncluding t ls (Suc i) = Some k" by simp
    from Cons.IH [OF this] obtain pre m post where
      "ls = pre @ m # post" "k = Suc i + length pre" "js_includes m t"
      "\<forall>x\<in>set pre. \<not> js_includes x t" by blast
    with False have "l # ls = (l # pre) @ m # post \<and> k = i + length (l # pre) \<and> js_includes m t
        \<and> (\<forall>x\<in>set (l # pre). \<not> js_includes x t)" by simp
    then show ?thesis by blast
  qed
qed

lemma firstIncluding_hit:
  "\<forall>x\<in>set pre. \<not> js_includes x t \<Longrightarrow> js_includes l t \<Longrightarrow>
   firstIncluding t (pre @ l # post) i = Some (i + length pre)"
  by (simp add: firstIncluding_append)

text \<open>
  The rewriting pass, stretch by stretch: outside the section every line is kept, inside
  it the package entries are dropped, and the package lines follow the open line.
\<close>

lemma rewriteQueries_outside:
  "qo \<notin> {i ..< i + length xs} \<Longrightarrow>
   rewriteQueries qo qc ind ps (xs @ ys) i False = xs @ rewriteQueries qo qc ind ps ys (i + length xs) False"
proof (induction xs arbitrary: i)
  case Nil
  show ?case by simp
next
  case (Cons x xs)
  from Cons.prems have io: "i \<noteq> qo" and rest: "qo \<notin> {Suc i ..< Suc i + length xs}" by auto
  from io Cons.IH [OF rest] show ?case by auto
qed

lemma rewriteQueries_inside:
  "qo \<notin> {i ..< i + length xs} \<Longrightarrow> qc \<notin> {i ..< i + length xs} \<Longrightarrow>
   rewriteQueries qo qc ind ps (xs @ ys) i True =
     filter (\<lambda>l. \<not> isPackageEntry l) xs @ rewriteQueries qo qc ind ps ys (i + length xs) True"
proof (induction xs arbitrary: i)
  case Nil
  show ?case by simp
next
  case (Cons x xs)
  from Cons.prems have io: "i \<noteq> qo" "i \<noteq> qc"
    and rest: "qo \<notin> {Suc i ..< Suc i + length xs}" "qc \<notin> {Suc i ..< Suc i + length xs}" by auto
  from io Cons.IH [OF rest] show ?case by simp
qed

lemma rewriteQueries_open:
  "rewriteQueries qo qc ind ps (l # ls) qo b =
     l # map (packageLine ind) ps @ rewriteQueries qo qc ind ps ls (Suc qo) True"
  by simp

lemma rewriteQueries_close:
  "qc \<noteq> qo \<Longrightarrow> rewriteQueries qo qc ind ps (l # ls) qc b = l # rewriteQueries qo qc ind ps ls (Suc qc) False"
  by simp

lemma rewriteQueries_rest_outside:
  "qo < i \<Longrightarrow> rewriteQueries qo qc ind ps xs i False = xs"
  using rewriteQueries_outside [of qo i xs qc ind ps "[]"] by simp

lemma rewriteQueries_rest_inside:
  "qo < i \<Longrightarrow> qc < i \<Longrightarrow>
   rewriteQueries qo qc ind ps xs i True = filter (\<lambda>l. \<not> isPackageEntry l) xs"
  using rewriteQueries_inside [of qo i xs qc ind ps "[]"] by simp

text \<open>The well-formed section: open line, interior, close line.\<close>
lemma rewriteQueries_section:
  "rewriteQueries (length pre) (Suc (length pre + length mid)) ind ps
      (pre @ openL # mid @ closeL # post) 0 False =
   pre @ openL # map (packageLine ind) ps @ filter (\<lambda>l. \<not> isPackageEntry l) mid @ closeL # post"
proof -
  let ?qo = "length pre" and ?qc = "Suc (length pre + length mid)"
  have 1: "rewriteQueries ?qo ?qc ind ps (pre @ openL # mid @ closeL # post) 0 False =
      pre @ rewriteQueries ?qo ?qc ind ps (openL # mid @ closeL # post) ?qo False"
    using rewriteQueries_outside [of ?qo 0 pre ?qc ind ps "openL # mid @ closeL # post"] by simp
  have 2: "rewriteQueries ?qo ?qc ind ps (mid @ closeL # post) (Suc ?qo) True =
      filter (\<lambda>l. \<not> isPackageEntry l) mid @ rewriteQueries ?qo ?qc ind ps (closeL # post) ?qc True"
    using rewriteQueries_inside [of ?qo "Suc ?qo" mid ?qc ind ps "closeL # post"] by simp
  have 3: "rewriteQueries ?qo ?qc ind ps (closeL # post) ?qc True = closeL # post"
    using rewriteQueries_close [of ?qc ?qo ind ps closeL post True]
      rewriteQueries_rest_outside [of ?qo "Suc ?qc" ?qc ind ps post] by simp
  show ?thesis
    unfolding 1 rewriteQueries_open 2 3 by simp
qed

text \<open>The close line at or before the open line: the section never ends.\<close>
lemma rewriteQueries_unclosed:
  "qc \<le> length pre \<Longrightarrow>
   rewriteQueries (length pre) qc ind ps (pre @ openL # rest) 0 False =
   pre @ openL # map (packageLine ind) ps @ filter (\<lambda>l. \<not> isPackageEntry l) rest"
proof -
  assume qc: "qc \<le> length pre"
  let ?qo = "length pre"
  have 1: "rewriteQueries ?qo qc ind ps (pre @ openL # rest) 0 False =
      pre @ rewriteQueries ?qo qc ind ps (openL # rest) ?qo False"
    using rewriteQueries_outside [of ?qo 0 pre qc ind ps "openL # rest"] by simp
  have 2: "rewriteQueries ?qo qc ind ps rest (Suc ?qo) True = filter (\<lambda>l. \<not> isPackageEntry l) rest"
    using qc by (simp add: rewriteQueries_rest_inside)
  show ?thesis unfolding 1 rewriteQueries_open 2 by simp
qed

text \<open>The insertion pass.\<close>

lemma insertQueries_outside:
  "a \<notin> {i ..< i + length xs} \<Longrightarrow>
   insertQueries a ind ps (xs @ ys) i = xs @ insertQueries a ind ps ys (i + length xs)"
proof (induction xs arbitrary: i)
  case Nil
  show ?case by simp
next
  case (Cons x xs)
  from Cons.prems have ia: "i \<noteq> a" and rest: "a \<notin> {Suc i ..< Suc i + length xs}" by auto
  from ia Cons.IH [OF rest] show ?case by simp
qed

lemma insertQueries_anchor:
  "insertQueries (length pre) ind ps (pre @ appL # post) 0 =
   pre @ (ind @ ''<queries>'') # map (packageLine (ind @ ''  '')) ps
     @ [ind @ ''</queries>'', '''', appL] @ post"
proof -
  have 1: "insertQueries (length pre) ind ps (pre @ appL # post) 0 =
      pre @ insertQueries (length pre) ind ps (appL # post) (length pre)"
    using insertQueries_outside [of "length pre" 0 pre ind ps "appL # post"] by simp
  have 2: "insertQueries (length pre) ind ps post (Suc (length pre)) = post"
    using insertQueries_outside [of "length pre" "Suc (length pre)" post ind ps "[]"] by simp
  show ?thesis unfolding 1 by (simp add: 2)
qed

text \<open>The first line with a marker, by index.\<close>

lemma firstIncluding_Some_iff:
  "firstIncluding t ls 0 = Some k \<longleftrightarrow>
     k < length ls \<and> js_includes (ls ! k) t \<and> (\<forall>j<k. \<not> js_includes (ls ! j) t)"
proof
  assume "firstIncluding t ls 0 = Some k"
  from firstIncluding_SomeD [OF this] obtain pre l post where
    d: "ls = pre @ l # post" "k = length pre" "js_includes l t"
       "\<forall>x\<in>set pre. \<not> js_includes x t" by auto
  have "\<forall>j<k. \<not> js_includes (ls ! j) t"
  proof (intro allI impI)
    fix j assume "j < k"
    with d have "ls ! j = pre ! j" "pre ! j \<in> set pre" by (simp_all add: nth_append)
    with d show "\<not> js_includes (ls ! j) t" by simp
  qed
  with d show "k < length ls \<and> js_includes (ls ! k) t \<and> (\<forall>j<k. \<not> js_includes (ls ! j) t)"
    by simp
next
  assume a: "k < length ls \<and> js_includes (ls ! k) t \<and> (\<forall>j<k. \<not> js_includes (ls ! j) t)"
  then have ls: "ls = take k ls @ ls ! k # drop (Suc k) ls" by (simp add: id_take_nth_drop)
  have "\<forall>x\<in>set (take k ls). \<not> js_includes x t"
  proof
    fix x assume "x \<in> set (take k ls)"
    then obtain j where "j < length (take k ls)" "x = take k ls ! j"
      by (auto simp: in_set_conv_nth)
    with a show "\<not> js_includes x t" by simp
  qed
  with a have "firstIncluding t (take k ls @ ls ! k # drop (Suc k) ls) 0 = Some (0 + length (take k ls))"
    by (intro firstIncluding_hit) simp_all
  with ls a show "firstIncluding t ls 0 = Some k" by simp
qed

lemma split_section:
  assumes "qo < qc" "qc < length ls"
  shows "ls = take qo ls @ ls ! qo # take (qc - Suc qo) (drop (Suc qo) ls) @ ls ! qc # drop (Suc qc) ls"
proof -
  let ?r = "drop (Suc qo) ls" and ?k = "qc - Suc qo"
  from assms have k: "?k < length ?r" by simp
  have "?r = take ?k ?r @ ?r ! ?k # drop (Suc ?k) ?r"
    using k by (rule id_take_nth_drop)
  moreover from assms have "?r ! ?k = ls ! qc" by simp
  moreover from assms have "drop (Suc ?k) ?r = drop (Suc qc) ls" by simp
  ultimately have r: "?r = take ?k ?r @ ls ! qc # drop (Suc qc) ls" by simp
  from assms have "ls = take qo ls @ ls ! qo # ?r" by (simp add: id_take_nth_drop)
  with r show ?thesis by simp
qed

text \<open>The definitions unfolded when the model is run on a concrete text.\<close>

lemmas eval_simps = emptyQueriesAt_def normalizeQueries_def js_space_def leadingSpace_def
  packageLine_def isPackageEntry_def updateManifest_def

section \<open>Entries after the open marker\<close>

text \<open>
  C8.  When the queries section is present (both anchors found, in the lines of the
  normalized manifest), the text written keeps the lines up to and including the
  open-marker line, continues with one line per package, in the order supplied and
  indented two spaces deeper than the open marker, and only then holds what is retained
  of the lines behind the open marker.
\<close>
theorem entries_follow_open_line:
  assumes inc: "js_includes manifestContent ''<queries''"
      and lines: "lines = split_nl (normalizeQueries manifestContent)"
      and found: "findQueries lines 0 (None, None) = (Some qo, Some qc)"
  shows "qo < length lines \<and> js_includes (lines ! qo) ''<queries'' \<and>
         updateManifest manifestContent pkgs =
           Some (join_nl (take (Suc qo) lines
                   @ map (packageLine (leadingSpace (lines ! qo) @ ''  '')) pkgs
                   @ (if qo < qc
                      then filter (\<lambda>l. \<not> isPackageEntry l) (take (qc - Suc qo) (drop (Suc qo) lines))
                             @ drop qc lines
                      else filter (\<lambda>l. \<not> isPackageEntry l) (drop (Suc qo) lines))))"
proof -
  let ?ind = "leadingSpace (lines ! qo) @ ''  ''"
  let ?np = "\<lambda>l. \<not> isPackageEntry l"
  from found have fo: "firstIncluding ''<queries'' lines 0 = Some qo"
    and fc: "firstIncluding ''</queries>'' lines 0 = Some qc"
    by (simp_all add: findQueries_first)
  from fo have qo: "qo < length lines" "js_includes (lines ! qo) ''<queries''"
    by (simp_all add: firstIncluding_Some_iff)
  from fc have qc: "qc < length lines" by (simp add: firstIncluding_Some_iff)
  have upd: "updateManifest manifestContent pkgs =
      Some (join_nl (rewriteQueries qo qc ?ind pkgs lines 0 False))"
    using inc found lines by (simp add: updateManifest_def Let_def)
  have "rewriteQueries qo qc ?ind pkgs lines 0 False =
      take (Suc qo) lines @ map (packageLine ?ind) pkgs
        @ (if qo < qc then filter ?np (take (qc - Suc qo) (drop (Suc qo) lines)) @ drop qc lines
           else filter ?np (drop (Suc qo) lines))"
  proof (cases "qo < qc")
    case True
    define pre where "pre = take qo lines"
    define mid where "mid = take (qc - Suc qo) (drop (Suc qo) lines)"
    define post where "post = drop (Suc qc) lines"
    have len: "length pre = qo" "Suc (qo + length mid) = qc"
      using True qc by (simp_all add: pre_def mid_def)
    have dec: "lines = pre @ lines ! qo # mid @ lines ! qc # post"
      unfolding pre_def mid_def post_def by (rule split_section [OF True qc])
    have "rewriteQueries (length pre) (Suc (length pre + length mid)) ?ind pkgs
            (pre @ lines ! qo # mid @ lines ! qc # post) 0 False =
          pre @ lines ! qo # map (packageLine ?ind) pkgs @ filter ?np mid @ lines ! qc # post"
      by (rule rewriteQueries_section)
    then have "rewriteQueries qo qc ?ind pkgs lines 0 False =
          pre @ lines ! qo # map (packageLine ?ind) pkgs @ filter ?np mid @ lines ! qc # post"
      unfolding len dec [symmetric] .
    with True qo qc show ?thesis
      by (simp add: pre_def mid_def post_def take_Suc_conv_app_nth Cons_nth_drop_Suc)
  next
    case False
    define pre where "pre = take qo lines"
    define rest where "rest = drop (Suc qo) lines"
    have len: "length pre = qo" using qo by (simp add: pre_def)
    have dec: "lines = pre @ lines ! qo # rest"
      unfolding pre_def rest_def using qo by (simp add: id_take_nth_drop)
    from False have "qc \<le> length pre" using len by simp
    then have "rewriteQueries (length pre) qc ?ind pkgs (pre @ lines ! qo # rest) 0 False =
        pre @ lines ! qo # map (packageLine ?ind) pkgs @ filter ?np rest"
      by (rule rewriteQueries_unclosed)
    then have "rewriteQueries qo qc ?ind pkgs lines 0 False =
        pre @ lines ! qo # map (packageLine ?ind) pkgs @ filter ?np rest"
      unfolding len dec [symmetric] .
    with False qo show ?thesis by (simp add: pre_def rest_def take_Suc_conv_app_nth)
  qed
  with upd qo show ?thesis by simp
qed

theorem entries_follow_open_line_witness:
  \<open>updateManifest
     ''<m>\<newline>  <queries>\<newline>    <package android:name="old" />\<newline>    <intent />\<newline>  </queries>\<newline></m>''
     [''com.a'', ''com.b'']
   = Some (join_nl [''<m>'', ''  <queries>'',
        ''    <package android:name="com.a" />'', ''    <package android:name="com.b" />'',
        ''    <intent />'', ''  </queries>'', ''</m>''])\<close>
proof -
  let ?c = \<open>''<m>\<newline>  <queries>\<newline>    <package android:name="old" />\<newline>    <intent />\<newline>  </queries>\<newline></m>''\<close>
  let ?ls = \<open>[''<m>'', ''  <queries>'', ''    <package android:name="old" />'', ''    <intent />'', ''  </queries>'', ''</m>'']\<close>
  have 1: "js_includes ?c ''<queries''" by simp
  have 2: "?ls = split_nl (normalizeQueries ?c)" by (simp add: eval_simps)
  have 3: "findQueries ?ls 0 (None, None) = (Some (Suc 0), Some (Suc (Suc (Suc (Suc 0)))))" by simp
  from entries_follow_open_line [OF 1 2 3, of "[''com.a'', ''com.b'']"]
  show ?thesis by (simp add: leadingSpace_def js_space_def packageLine_def isPackageEntry_def)
qed

section \<open>Creating the section\<close>

text \<open>
  C5.  A manifest without the open marker whose first line with an application tag is
  \<open>appL\<close> is written back with a new block right in front of that line: the open
  marker, one line per package in the order supplied, the close marker and an empty
  line.  Both markers carry the leading white space of \<open>appL\<close>, the package lines two
  spaces more; every other line stays where it was.
\<close>

theorem creation_path:
  assumes absent: "\<not> js_includes manifestContent ''<queries''"
      and lines: "split_nl manifestContent = pre @ appL # post"
      and before: "\<forall>l\<in>set pre. \<not> js_includes l ''<application''"
      and anchor: "js_includes appL ''<application''"
  shows "updateManifest manifestContent pkgs =
           Some (join_nl (pre
                   @ [leadingSpace appL @ ''<queries>'']
                   @ map (packageLine (leadingSpace appL @ ''  '')) pkgs
                   @ [leadingSpace appL @ ''</queries>'', '''', appL]
                   @ post))"
proof -
  have "firstIncluding ''<application'' (pre @ appL # post) 0 = Some (0 + length pre)"
    using before anchor by (rule firstIncluding_hit)
  then have app: "findApplication (split_nl manifestContent) 0 = Some (length pre)"
    by (simp add: findApplication_first lines)
  have at: "(pre @ appL # post) ! length pre = appL" by simp
  show ?thesis
    using absent app
    by (simp add: updateManifest_def Let_def lines at insertQueries_anchor)
qed

theorem creation_path_witness:
  \<open>updateManifest ''<manifest>\<newline>  <application />\<newline></manifest>'' [''com.a'', ''com.b'']
   = Some (join_nl [''<manifest>'', ''  <queries>'',
        ''    <package android:name="com.a" />'', ''    <package android:name="com.b" />'',
        ''  </queries>'', '''', ''  <application />'', ''</manifest>''])\<close>
proof -
  let ?c = "''<manifest>\<newline>  <application />\<newline></manifest>''"
  have 1: "\<not> js_includes ?c ''<queries''" by simp
  have 2: "split_nl ?c = [''<manifest>''] @ ''  <application />'' # [''</manifest>'']" by simp
  have 3: "\<forall>l\<in>set [''<manifest>'']. \<not> js_includes l ''<application''" by simp
  have 4: "js_includes ''  <application />'' ''<application''" by simp
  from creation_path [OF 1 2 3 4, of "[''com.a'', ''com.b'']"]
  show ?thesis by (simp add: leadingSpace_def js_space_def packageLine_def)
qed

section \<open>Effects of setupKeychainsAndroid\<close>

lemma loadPackages_files: "files (snd (loadPackages parse configFile configured w)) = files w"
  by (cases "files w configFile")
    (simp_all add: loadPackages_def extractJsonArray_def existsSync_def readFileSync_def)

lemma loadPackages_writes:
  "filter isWrite (events (snd (loadPackages parse configFile configured w))) =
   filter isWrite (events w)"
  by (cases "files w configFile")
    (simp_all add: loadPackages_def extractJsonArray_def existsSync_def readFileSync_def)

lemma updateManifest_no_anchor:
  assumes "\<not> js_includes manifestContent ''<queries''"
      and "\<not> js_includes manifestContent ''<application''"
  shows "updateManifest manifestContent pkgs = None"
proof -
  have "\<forall>l\<in>set (split_nl manifestContent). \<not> js_includes l ''<application''"
    using assms(2) split_nl_includes by blast
  then have "findApplication (split_nl manifestContent) 0 = None"
    by (simp add: findApplication_first firstIncluding_None)
  with assms(1) show ?thesis by (simp add: updateManifest_def)
qed

text \<open>
  C4.  When the manifest holds neither the open marker nor an application tag, the call
  returns \<^verbatim>\<open>false\<close>, every file keeps the content it had, and no write is recorded
  beyond those recorded before the call.
\<close>

theorem no_anchor_fails:
  assumes manifest: "files w (config_manifestPath options) = Some manifestContent"
      and no_open: "\<not> js_includes manifestContent ''<queries''"
      and no_anchor: "\<not> js_includes manifestContent ''<application''"
  shows "fst (setupKeychainsAndroid parse configFile options w) = Returned False
       \<and> files (snd (setupKeychainsAndroid parse configFile options w)) = files w
       \<and> filter isWrite (events (snd (setupKeychainsAndroid parse configFile options w)))
           = filter isWrite (events w)"
proof -
  obtain pkgs w1 where lp: "loadPackages parse configFile (config_packages options) w = (pkgs, w1)"
    by (cases "loadPackages parse configFile (config_packages options) w")
  have f1: "files w1 = files w" using loadPackages_files [of parse configFile "config_packages options" w] lp by simp
  have e1: "filter isWrite (events w1) = filter isWrite (events w)"
    using loadPackages_writes [of parse configFile "config_packages options" w] lp by simp
  have none: "updateManifest manifestContent pkgs = None"
    using no_open no_anchor by (rule updateManifest_no_anchor)
  show ?thesis
    using manifest f1 e1 none
    by (simp add: setupKeychainsAndroid_def lp existsSync_def readFileSync_def)
qed

theorem no_anchor_fails_witness:
  "fst (setupKeychainsAndroid (\<lambda>c k. []) ''cfg.json''
          \<lparr>manifestPath = Some ''M.xml'', packages = Some [''com.a'']\<rparr>
          \<lparr>files = [''M.xml'' \<mapsto> ''<manifest>\<newline></manifest>''], events = []\<rparr>) = Returned False
   \<and> files (snd (setupKeychainsAndroid (\<lambda>c k. []) ''cfg.json''
          \<lparr>manifestPath = Some ''M.xml'', packages = Some [''com.a'']\<rparr>
          \<lparr>files = [''M.xml'' \<mapsto> ''<manifest>\<newline></manifest>''], events = []\<rparr>))
       = [''M.xml'' \<mapsto> ''<manifest>\<newline></manifest>'']"
proof -
  let ?o = "\<lparr>manifestPath = Some ''M.xml'', packages = Some [''com.a'']\<rparr>"
  let ?w = "\<lparr>files = [''M.xml'' \<mapsto> ''<manifest>\<newline></manifest>''], events = []\<rparr>"
  have 1: "files ?w (config_manifestPath ?o) = Some ''<manifest>\<newline></manifest>''"
    by (simp add: config_manifestPath_def)
  have 2: "\<not> js_includes ''<manifest>\<newline></manifest>'' ''<queries''" by simp
  have 3: "\<not> js_includes ''<manifest>\<newline></manifest>'' ''<application''" by simp
  from no_anchor_fails [OF 1 2 3, of "\<lambda>c k. []" "''cfg.json''"]
  show ?thesis by simp
qed

section \<open>No packages\<close>

text \<open>
  C9.  When the options carry no package and the config file is missing or holds none
  under the key keychains, the call returns \<^verbatim>\<open>false\<close> in a world that differs from
  the one before only by the recorded accesses to the config file: its existence check,
  and the second check and the read made by extractJsonArray when it exists.  No
  existence check, read or write of the manifest is made.
\<close>

theorem no_packages_returns_false:
  assumes none_given: "config_packages options = []"
      and none_loaded: "\<forall>c. files w configFile = Some c \<longrightarrow> parse c ''keychains'' = []"
  shows "setupKeychainsAndroid parse configFile options w =
           (Returned False,
            w\<lparr>events := events w @
               (if files w configFile = None then [ExistsSync configFile]
                else [ExistsSync configFile, ExistsSync configFile, ReadFileSync configFile])\<rparr>)"
  using assms
  by (auto simp: setupKeychainsAndroid_def loadPackages_def extractJsonArray_def existsSync_def
      readFileSync_def split: option.splits)

theorem no_packages_returns_false_witness:
  "setupKeychainsAndroid (\<lambda>c k. []) ''cfg.json'' \<lparr>manifestPath = None, packages = None\<rparr>
     \<lparr>files = [''cfg.json'' \<mapsto> ''{}''], events = []\<rparr> =
   (Returned False,
    \<lparr>files = [''cfg.json'' \<mapsto> ''{}''],
     events = [ExistsSync ''cfg.json'', ExistsSync ''cfg.json'', ReadFileSync ''cfg.json'']\<rparr>)"
proof -
  let ?o = "\<lparr>manifestPath = None, packages = None\<rparr>"
  let ?w = "\<lparr>files = [''cfg.json'' \<mapsto> ''{}''], events = []\<rparr>"
  have 1: "config_packages ?o = []" by (simp add: config_packages_def)
  have 2: "\<forall>c. files ?w ''cfg.json'' = Some c \<longrightarrow> (\<lambda>c k. []) c ''keychains'' = []" by simp
  have 3: "files ?w ''cfg.json'' \<noteq> None" by simp
  have 4: "?w\<lparr>events := events ?w
      @ [ExistsSync ''cfg.json'', ExistsSync ''cfg.json'', ReadFileSync ''cfg.json'']\<rparr> =
    \<lparr>files = [''cfg.json'' \<mapsto> ''{}''],
     events = [ExistsSync ''cfg.json'', ExistsSync ''cfg.json'', ReadFileSync ''cfg.json'']\<rparr>"
    by simp
  from no_packages_returns_false [OF 1 2]
  show ?thesis unfolding if_not_P [OF 3] 4 .
qed

section \<open>The entitlements editor\<close>

lemma updateKeychainLines_append:
  "js_includes keyL keychainKey \<Longrightarrow>
   updateKeychainLines bundleId keychains s (pre @ keyL # post) =
     updateKeychainLines bundleId keychains s pre
       @ keyL # arrayOpenLine # groupLine bundleId # map groupLine keychains
       @ updateKeychainLines bundleId keychains True post"
  by (induction pre arbitrary: s) simp_all

lemma addKeychainLines_append:
  "addKeychainLines bundleId keychains (pre @ post) =
     addKeychainLines bundleId keychains pre @ addKeychainLines bundleId keychains post"
  by (induction pre) simp_all

lemma updateEntitlementsFile_written:
  "files w filePath = Some content \<Longrightarrow>
   fst (updateEntitlementsFile filePath bundleId keychains w) = True \<and>
   files (snd (updateEntitlementsFile filePath bundleId keychains w)) filePath =
     Some (updateEntitlements content bundleId keychains)"
  by (simp add: updateEntitlementsFile_def readFileSync_def writeFileSync_def)

text \<open>
  Where the editor writes the array, the bundle id comes first.  Let \<open>l\<close> be any line
  of the entitlements file read.  If \<open>l\<close> holds the
  keychain-access-groups key, the file written continues after \<open>l\<close> with the array
  opening, then the string entry made of \<^verbatim>\<open>$(AppIdentifierPrefix)\<close> and the bundle
  id, then one string entry per keychain in the order given.  If the file holds no such
  key and \<open>l\<close> holds the closing dict tag, the same key, array opening, bundle entry and
  keychain entries are written in front of \<open>l\<close>, closed by the array end.  A file that
  holds the key has a line that holds it, so that the first case is never empty.
\<close>

theorem bundle_id_first:
  assumes readable: "files w filePath = Some content"
      and lines: "split_nl content = pre @ l # post"
  shows "(js_includes l keychainKey \<longrightarrow>
            files (snd (updateEntitlementsFile filePath bundleId keychains w)) filePath =
              Some (join_nl (updateKeychainLines bundleId keychains False pre
                 @ [l, CHR 0x09 # ''<array>'',
                    CHR 0x09 # CHR 0x09 # ''<string>$(AppIdentifierPrefix)'' @ bundleId @ ''</string>'']
                 @ map (\<lambda>k. CHR 0x09 # CHR 0x09 # ''<string>$(AppIdentifierPrefix)'' @ k @ ''</string>'')
                     keychains
                 @ updateKeychainLines bundleId keychains True post)))
       \<and> (\<not> js_includes content keychainKey \<and> js_includes l ''</dict>'' \<longrightarrow>
            files (snd (updateEntitlementsFile filePath bundleId keychains w)) filePath =
              Some (join_nl (addKeychainLines bundleId keychains pre
                 @ [CHR 0x09 # ''<key>keychain-access-groups</key>'', CHR 0x09 # ''<array>'',
                    CHR 0x09 # CHR 0x09 # ''<string>$(AppIdentifierPrefix)'' @ bundleId @ ''</string>'']
                 @ map (\<lambda>k. CHR 0x09 # CHR 0x09 # ''<string>$(AppIdentifierPrefix)'' @ k @ ''</string>'')
                     keychains
                 @ [CHR 0x09 # ''</array>'', l]
                 @ addKeychainLines bundleId keychains post)))
       \<and> (js_includes content keychainKey \<longrightarrow>
            (\<exists>k\<in>set (split_nl content). js_includes k keychainKey))"
proof (intro conjI impI)
  assume key: "js_includes l keychainKey"
  have "l \<in> set (split_nl content)" by (simp add: lines)
  then have "js_includes content keychainKey" using key by (rule split_nl_includes)
  then have "updateEntitlements content bundleId keychains =
      join_nl (updateKeychainLines bundleId keychains False (pre @ l # post))"
    by (simp add: updateEntitlements_def lines)
  then show "files (snd (updateEntitlementsFile filePath bundleId keychains w)) filePath =
              Some (join_nl (updateKeychainLines bundleId keychains False pre
                 @ [l, CHR 0x09 # ''<array>'',
                    CHR 0x09 # CHR 0x09 # ''<string>$(AppIdentifierPrefix)'' @ bundleId @ ''</string>'']
                 @ map (\<lambda>k. CHR 0x09 # CHR 0x09 # ''<string>$(AppIdentifierPrefix)'' @ k @ ''</string>'')
                     keychains
                 @ updateKeychainLines bundleId keychains True post))"
    using updateEntitlementsFile_written [OF readable, of bundleId keychains]
      updateKeychainLines_append [OF key, of bundleId keychains False pre post]
    by (simp add: arrayOpenLine_def groupLine_def [abs_def])
next
  assume "\<not> js_includes content keychainKey \<and> js_includes l ''</dict>''"
  then have nokey: "\<not> js_includes content keychainKey" and dict: "js_includes l ''</dict>''"
    by simp_all
  from nokey have "updateEntitlements content bundleId keychains =
      join_nl (addKeychainLines bundleId keychains (pre @ l # post))"
    by (simp add: updateEntitlements_def lines)
  then show "files (snd (updateEntitlementsFile filePath bundleId keychains w)) filePath =
              Some (join_nl (addKeychainLines bundleId keychains pre
                 @ [CHR 0x09 # ''<key>keychain-access-groups</key>'', CHR 0x09 # ''<array>'',
                    CHR 0x09 # CHR 0x09 # ''<string>$(AppIdentifierPrefix)'' @ bundleId @ ''</string>'']
                 @ map (\<lambda>k. CHR 0x09 # CHR 0x09 # ''<string>$(AppIdentifierPrefix)'' @ k @ ''</string>'')
                     keychains
                 @ [CHR 0x09 # ''</array>'', l]
                 @ addKeychainLines bundleId keychains post))"
    using updateEntitlementsFile_written [OF readable, of bundleId keychains] dict
    by (simp add: addKeychainLines_append arrayOpenLine_def groupLine_def [abs_def] keychainKey_def)
next
  assume "js_includes content keychainKey"
  moreover have "CHR 0x0A \<notin> set keychainKey" by (simp add: keychainKey_def)
  ultimately show "\<exists>k\<in>set (split_nl content). js_includes k keychainKey"
    by (rule split_nl_includes_line)
qed

theorem bundle_id_first_witness:
  "files (snd (updateEntitlementsFile ''App.entitlements'' ''com.app'' [''com.k1'', ''com.k2'']
      \<lparr>files = [''App.entitlements'' \<mapsto>
          ''<dict>\<newline><key>keychain-access-groups</key>\<newline><array>\<newline><string>old</string>\<newline></array>\<newline></dict>''],
        events = []\<rparr>)) ''App.entitlements''
     = Some (join_nl [''<dict>'', ''<key>keychain-access-groups</key>'', CHR 0x09 # ''<array>'',
         CHR 0x09 # CHR 0x09 # ''<string>$(AppIdentifierPrefix)com.app</string>'',
         CHR 0x09 # CHR 0x09 # ''<string>$(AppIdentifierPrefix)com.k1</string>'',
         CHR 0x09 # CHR 0x09 # ''<string>$(AppIdentifierPrefix)com.k2</string>'',
         ''</array>'', ''</dict>''])
   \<and> files (snd (updateEntitlementsFile ''App.entitlements'' ''com.app'' [''com.k1'', ''com.k2'']
      \<lparr>files = [''App.entitlements'' \<mapsto> ''<dict>\<newline></dict>''], events = []\<rparr>)) ''App.entitlements''
     = Some (join_nl [''<dict>'', CHR 0x09 # ''<key>keychain-access-groups</key>'', CHR 0x09 # ''<array>'',
         CHR 0x09 # CHR 0x09 # ''<string>$(AppIdentifierPrefix)com.app</string>'',
         CHR 0x09 # CHR 0x09 # ''<string>$(AppIdentifierPrefix)com.k1</string>'',
         CHR 0x09 # CHR 0x09 # ''<string>$(AppIdentifierPrefix)com.k2</string>'',
         CHR 0x09 # ''</array>'', ''</dict>''])"
proof -
  let ?c1 = "''<dict>\<newline><key>keychain-access-groups</key>\<newline><array>\<newline><string>old</string>\<newline></array>\<newline></dict>''"
  let ?c2 = "''<dict>\<newline></dict>''"
  let ?w1 = "\<lparr>files = [''App.entitlements'' \<mapsto> ?c1], events = []\<rparr>"
  let ?w2 = "\<lparr>files = [''App.entitlements'' \<mapsto> ?c2], events = []\<rparr>"
  have r1: "files ?w1 ''App.entitlements'' = Some ?c1" by simp
  have l1: "split_nl ?c1 = [''<dict>''] @ ''<key>keychain-access-groups</key>''
      # [''<array>'', ''<string>old</string>'', ''</array>'', ''</dict>'']" by simp
  have k1: "js_includes ''<key>keychain-access-groups</key>'' keychainKey"
    by (simp add: keychainKey_def)
  have r2: "files ?w2 ''App.entitlements'' = Some ?c2" by simp
  have l2: "split_nl ?c2 = [''<dict>''] @ ''</dict>'' # []" by simp
  have k2: "\<not> js_includes ?c2 keychainKey \<and> js_includes ''</dict>'' ''</dict>''"
    by (simp add: keychainKey_def)
  from bundle_id_first [OF r1 l1, of "''com.app''" "[''com.k1'', ''com.k2'']"] k1
  have a: "files (snd (updateEntitlementsFile ''App.entitlements'' ''com.app'' [''com.k1'', ''com.k2''] ?w1))
      ''App.entitlements''
     = Some (join_nl [''<dict>'', ''<key>keychain-access-groups</key>'', CHR 0x09 # ''<array>'',
         CHR 0x09 # CHR 0x09 # ''<string>$(AppIdentifierPrefix)com.app</string>'',
         CHR 0x09 # CHR 0x09 # ''<string>$(AppIdentifierPrefix)com.k1</string>'',
         CHR 0x09 # CHR 0x09 # ''<string>$(AppIdentifierPrefix)com.k2</string>'',
         ''</array>'', ''</dict>''])"
    by (simp add: keychainKey_def)
  from bundle_id_first [OF r2 l2, of "''com.app''" "[''com.k1'', ''com.k2'']"] k2
  have b: "files (snd (updateEntitlementsFile ''App.entitlements'' ''com.app'' [''com.k1'', ''com.k2''] ?w2))
      ''App.entitlements''
     = Some (join_nl [''<dict>'', CHR 0x09 # ''<key>keychain-access-groups</key>'', CHR 0x09 # ''<array>'',
         CHR 0x09 # CHR 0x09 # ''<string>$(AppIdentifierPrefix)com.app</string>'',
         CHR 0x09 # CHR 0x09 # ''<string>$(AppIdentifierPrefix)com.k1</string>'',
         CHR 0x09 # CHR 0x09 # ''<string>$(AppIdentifierPrefix)com.k2</string>'',
         CHR 0x09 # ''</array>'', ''</dict>''])"
    by simp
  from a b show ?thesis by blast
qed

text \<open>
  C10 does not hold of the code for every entitlements file.  The create branch writes
  the key and the array only in front of a line with the closing dict tag: for a file
  whose dict is the self-closing tag there is no such line, the file is written back
  as it was, without any array or bundle entry, and the call still returns
  \<^verbatim>\<open>true\<close>.  In the update branch, an array that stands on the key line itself is
  kept with that line, so that its old entry stays in front of the bundle entry.
\<close>

theorem selfclosing_dict_failing_input:
  "fst (updateEntitlementsFile ''App.entitlements'' ''com.app'' [''com.k1'']
      \<lparr>files = [''App.entitlements'' \<mapsto> ''<plist>\<newline><dict/>\<newline></plist>''], events = []\<rparr>)
     = True
   \<and> files (snd (updateEntitlementsFile ''App.entitlements'' ''com.app'' [''com.k1'']
      \<lparr>files = [''App.entitlements'' \<mapsto> ''<plist>\<newline><dict/>\<newline></plist>''], events = []\<rparr>))
      ''App.entitlements''
     = Some ''<plist>\<newline><dict/>\<newline></plist>''
   \<and> updateEntitlements
      ''<dict>\<newline><key>keychain-access-groups</key><array><string>old</string></array>\<newline></dict>''
      ''com.app'' [''com.k1'']
     = join_nl [''<dict>'',
         ''<key>keychain-access-groups</key><array><string>old</string></array>'',
         CHR 0x09 # ''<array>'',
         CHR 0x09 # CHR 0x09 # ''<string>$(AppIdentifierPrefix)com.app</string>'',
         CHR 0x09 # CHR 0x09 # ''<string>$(AppIdentifierPrefix)com.k1</string>'']"
  by (simp add: updateEntitlementsFile_def readFileSync_def writeFileSync_def
      updateEntitlements_def keychainKey_def arrayOpenLine_def groupLine_def)

section \<open>The anchors selected\<close>

text \<open>
  C7, as it holds of the code.  The two anchors are looked for independently: the open
  line is the first line that includes the open marker, the close line is the first
  line of the whole document that includes the close marker, wherever it lies relative
  to the open line.  It is the first close-marker line behind the open line when no
  line up to and including the open line includes a close marker.
\<close>

theorem anchors_selected:
  "(findQueries lines 0 (None, None) = (Some qo, Some qc) \<longleftrightarrow>
      qo < length lines \<and> js_includes (lines ! qo) ''<queries''
        \<and> (\<forall>j<qo. \<not> js_includes (lines ! j) ''<queries'')
        \<and> qc < length lines \<and> js_includes (lines ! qc) ''</queries>''
        \<and> (\<forall>j<qc. \<not> js_includes (lines ! j) ''</queries>''))
   \<and> (findQueries lines 0 (None, None) = (Some qo, Some qc)
        \<and> (\<forall>j\<le>qo. \<not> js_includes (lines ! j) ''</queries>'') \<longrightarrow> qo < qc)"
proof (intro conjI impI)
  show "findQueries lines 0 (None, None) = (Some qo, Some qc) \<longleftrightarrow>
      qo < length lines \<and> js_includes (lines ! qo) ''<queries''
        \<and> (\<forall>j<qo. \<not> js_includes (lines ! j) ''<queries'')
        \<and> qc < length lines \<and> js_includes (lines ! qc) ''</queries>''
        \<and> (\<forall>j<qc. \<not> js_includes (lines ! j) ''</queries>'')"
    by (simp add: findQueries_first firstIncluding_Some_iff)
next
  assume a: "findQueries lines 0 (None, None) = (Some qo, Some qc)
        \<and> (\<forall>j\<le>qo. \<not> js_includes (lines ! j) ''</queries>'')"
  then have "js_includes (lines ! qc) ''</queries>''"
    by (simp add: findQueries_first firstIncluding_Some_iff)
  with a have "\<not> qc \<le> qo" by blast
  then show "qo < qc" by simp
qed

theorem anchors_selected_witness:
  "findQueries [''<manifest>'', ''  <queries>'', ''  </queries>'', ''</manifest>''] 0 (None, None)
     = (Some (Suc 0), Some (Suc (Suc 0)))
   \<and> Suc 0 < Suc (Suc 0)"
proof -
  let ?ls = "[''<manifest>'', ''  <queries>'', ''  </queries>'', ''</manifest>'']"
  have r: "Suc 0 < length ?ls \<and> js_includes (?ls ! Suc 0) ''<queries''
        \<and> (\<forall>j<Suc 0. \<not> js_includes (?ls ! j) ''<queries'')
        \<and> Suc (Suc 0) < length ?ls \<and> js_includes (?ls ! Suc (Suc 0)) ''</queries>''
        \<and> (\<forall>j<Suc (Suc 0). \<not> js_includes (?ls ! j) ''</queries>'')"
    by (simp add: less_Suc_eq)
  have n: "\<forall>j\<le>Suc 0. \<not> js_includes (?ls ! j) ''</queries>''"
    by (simp add: le_Suc_eq)
  from anchors_selected [of ?ls "Suc 0" "Suc (Suc 0)"] r
  have f: "findQueries ?ls 0 (None, None) = (Some (Suc 0), Some (Suc (Suc 0)))" by blast
  from anchors_selected [of ?ls "Suc 0" "Suc (Suc 0)"] f n
  have "Suc 0 < Suc (Suc 0)" by blast
  with f show ?thesis by blast
qed

text \<open>
  C7 as stated fails where a close marker stands in front of the open marker, here in a
  comment: the close line selected is line 0, in front of the open line 1, although
  the first close marker behind the open line is on line 2.
\<close>

theorem close_marker_counterexample:
  "findQueries
     (split_nl (normalizeQueries ''<!-- </queries> -->\<newline><queries>\<newline></queries>'')) 0 (None, None)
     = (Some 1, Some 0)
   \<and> firstIncluding ''</queries>''
       (drop 2 (split_nl (normalizeQueries ''<!-- </queries> -->\<newline><queries>\<newline></queries>''))) 2
     = Some 2"
  by (simp add: eval_simps)

section \<open>Interior lines of the section\<close>

lemma findQueries_section:
  assumes "\<forall>l\<in>set pre. \<not> js_includes l ''<queries'' \<and> \<not> js_includes l ''</queries>''"
      and "js_includes openL ''<queries''" and "\<not> js_includes openL ''</queries>''"
      and "\<forall>l\<in>set mid. \<not> js_includes l ''</queries>''"
      and "js_includes closeL ''</queries>''"
  shows "findQueries (pre @ openL # mid @ closeL # post) 0 (None, None) =
           (Some (length pre), Some (Suc (length pre + length mid)))"
proof -
  have o: "firstIncluding ''<queries'' (pre @ openL # mid @ closeL # post) 0 = Some (0 + length pre)"
    using assms by (intro firstIncluding_hit) simp_all
  have "firstIncluding ''</queries>'' ((pre @ openL # mid) @ closeL # post) 0 =
      Some (0 + length (pre @ openL # mid))"
    using assms by (intro firstIncluding_hit) auto
  then have c: "firstIncluding ''</queries>'' (pre @ openL # mid @ closeL # post) 0 =
      Some (Suc (length pre + length mid))" by simp
  show ?thesis using o c by (simp add: findQueries_first)
qed

lemma updateManifest_section:
  assumes "js_includes manifestContent ''<queries''"
      and "split_nl (normalizeQueries manifestContent) = pre @ openL # mid @ closeL # post"
      and "\<forall>l\<in>set pre. \<not> js_includes l ''<queries'' \<and> \<not> js_includes l ''</queries>''"
      and "js_includes openL ''<queries''" and "\<not> js_includes openL ''</queries>''"
      and "\<forall>l\<in>set mid. \<not> js_includes l ''</queries>''"
      and "js_includes closeL ''</queries>''"
  shows "updateManifest manifestContent pkgs =
           Some (join_nl (pre @ openL # map (packageLine (leadingSpace openL @ ''  '')) pkgs
                   @ filter (\<lambda>l. \<not> isPackageEntry l) mid @ closeL # post))"
proof -
  have f: "findQueries (pre @ openL # mid @ closeL # post) 0 (None, None) =
      (Some (length pre), Some (Suc (length pre + length mid)))"
    using assms(3-7) by (rule findQueries_section)
  have at: "(pre @ openL # mid @ closeL # post) ! length pre = openL" by simp
  show ?thesis
    using assms(1)
    by (simp add: updateManifest_def Let_def assms(2) f at rewriteQueries_section)
qed

lemma updateKeychainLines_skip:
  assumes "\<forall>l\<in>set mid. \<not> js_includes l keychainKey \<and> \<not> js_includes l ''</array>''"
      and "\<not> js_includes closeL keychainKey" and "js_includes closeL ''</array>''"
  shows "updateKeychainLines bundleId keychains True (mid @ closeL # post) =
           closeL # updateKeychainLines bundleId keychains False post"
  using assms by (induction mid) simp_all

text \<open>
  C3, as it holds of the code.  In the manifest, with the open line in front of the
  close line, the interior lines that are no package entries stay between the new
  package lines and the close line, unmodified and in their order.  In the entitlements
  file there is no such test: every line between the key line and the line that closes
  the array is left out, and only the new array opening and string entries stand there.
\<close>

theorem interior_lines:
  "(js_includes manifestContent ''<queries''
      \<and> split_nl (normalizeQueries manifestContent) = pre @ openL # interior @ closeL # post
      \<and> (\<forall>l\<in>set pre. \<not> js_includes l ''<queries'' \<and> \<not> js_includes l ''</queries>'')
      \<and> js_includes openL ''<queries'' \<and> \<not> js_includes openL ''</queries>''
      \<and> (\<forall>l\<in>set interior. \<not> js_includes l ''</queries>'')
      \<and> js_includes closeL ''</queries>''
    \<longrightarrow> updateManifest manifestContent pkgs =
          Some (join_nl (pre @ openL # map (packageLine (leadingSpace openL @ ''  '')) pkgs
                  @ filter (\<lambda>l. \<not> isPackageEntry l) interior @ closeL # post)))
   \<and> (split_nl content = before @ keyL # inside @ endL # behind
      \<and> js_includes keyL keychainKey
      \<and> (\<forall>l\<in>set inside. \<not> js_includes l keychainKey \<and> \<not> js_includes l ''</array>'')
      \<and> \<not> js_includes endL keychainKey \<and> js_includes endL ''</array>''
    \<longrightarrow> updateEntitlements content bundleId keychains =
          join_nl (updateKeychainLines bundleId keychains False before
                  @ keyL # arrayOpenLine # groupLine bundleId # map groupLine keychains
                  @ endL # updateKeychainLines bundleId keychains False behind))"
proof (intro conjI impI)
  assume a: "js_includes manifestContent ''<queries''
      \<and> split_nl (normalizeQueries manifestContent) = pre @ openL # interior @ closeL # post
      \<and> (\<forall>l\<in>set pre. \<not> js_includes l ''<queries'' \<and> \<not> js_includes l ''</queries>'')
      \<and> js_includes openL ''<queries'' \<and> \<not> js_includes openL ''</queries>''
      \<and> (\<forall>l\<in>set interior. \<not> js_includes l ''</queries>'')
      \<and> js_includes closeL ''</queries>''"
  then show "updateManifest manifestContent pkgs =
          Some (join_nl (pre @ openL # map (packageLine (leadingSpace openL @ ''  '')) pkgs
                  @ filter (\<lambda>l. \<not> isPackageEntry l) interior @ closeL # post))"
    by (intro updateManifest_section) simp_all
next
  assume a: "split_nl content = before @ keyL # inside @ endL # behind
      \<and> js_includes keyL keychainKey
      \<and> (\<forall>l\<in>set inside. \<not> js_includes l keychainKey \<and> \<not> js_includes l ''</array>'')
      \<and> \<not> js_includes endL keychainKey \<and> js_includes endL ''</array>''"
  then have "keyL \<in> set (split_nl content)" by simp
  with a have inc: "js_includes content keychainKey" using split_nl_includes by blast
  have skip: "updateKeychainLines bundleId keychains True (inside @ endL # behind) =
      endL # updateKeychainLines bundleId keychains False behind"
    using a by (intro updateKeychainLines_skip) simp_all
  have "updateKeychainLines bundleId keychains False (before @ keyL # inside @ endL # behind) =
      updateKeychainLines bundleId keychains False before
        @ keyL # arrayOpenLine # groupLine bundleId # map groupLine keychains
        @ updateKeychainLines bundleId keychains True (inside @ endL # behind)"
    using a by (intro updateKeychainLines_append) simp
  with skip inc a show "updateEntitlements content bundleId keychains =
          join_nl (updateKeychainLines bundleId keychains False before
                  @ keyL # arrayOpenLine # groupLine bundleId # map groupLine keychains
                  @ endL # updateKeychainLines bundleId keychains False behind)"
    by (simp add: updateEntitlements_def)
qed

theorem interior_lines_witness:
  \<open>updateManifest
     ''<m>\<newline><queries>\<newline>  <package android:name="old" />\<newline>  <intent />\<newline></queries>\<newline></m>''
     [''com.a'']
     = Some (join_nl [''<m>'', ''<queries>'', ''  <package android:name="com.a" />'',
         ''  <intent />'', ''</queries>'', ''</m>''])
   \<and> updateEntitlements
     ''<dict>\<newline><key>keychain-access-groups</key>\<newline><array>\<newline><string>old</string>\<newline></array>\<newline></dict>''
     ''com.app'' [''com.k1'']
     = join_nl [''<dict>'', ''<key>keychain-access-groups</key>'', CHR 0x09 # ''<array>'',
         CHR 0x09 # CHR 0x09 # ''<string>$(AppIdentifierPrefix)com.app</string>'',
         CHR 0x09 # CHR 0x09 # ''<string>$(AppIdentifierPrefix)com.k1</string>'',
         ''</array>'', ''</dict>'']\<close>
proof -
  let ?m = \<open>''<m>\<newline><queries>\<newline>  <package android:name="old" />\<newline>  <intent />\<newline></queries>\<newline></m>''\<close>
  let ?e = "''<dict>\<newline><key>keychain-access-groups</key>\<newline><array>\<newline><string>old</string>\<newline></array>\<newline></dict>''"
  have m: \<open>js_includes ?m ''<queries''
      \<and> split_nl (normalizeQueries ?m) =
          [''<m>''] @ ''<queries>'' # [''  <package android:name="old" />'', ''  <intent />'']
            @ ''</queries>'' # [''</m>'']
      \<and> (\<forall>l\<in>set [''<m>'']. \<not> js_includes l ''<queries'' \<and> \<not> js_includes l ''</queries>'')
      \<and> js_includes ''<queries>'' ''<queries'' \<and> \<not> js_includes ''<queries>'' ''</queries>''
      \<and> (\<forall>l\<in>set [''  <package android:name="old" />'', ''  <intent />''].
            \<not> js_includes l ''</queries>'')
      \<and> js_includes ''</queries>'' ''</queries>''\<close>
    by (simp add: eval_simps)
  have e: "split_nl ?e = [''<dict>''] @ ''<key>keychain-access-groups</key>''
          # [''<array>'', ''<string>old</string>''] @ ''</array>'' # [''</dict>'']
      \<and> js_includes ''<key>keychain-access-groups</key>'' keychainKey
      \<and> (\<forall>l\<in>set [''<array>'', ''<string>old</string>''].
            \<not> js_includes l keychainKey \<and> \<not> js_includes l ''</array>'')
      \<and> \<not> js_includes ''</array>'' keychainKey \<and> js_includes ''</array>'' ''</array>''"
    by (simp add: keychainKey_def)
  note android = interior_lines [where manifestContent = ?m and pre = "[''<m>'']"
      and openL = "''<queries>''" and interior = \<open>[''  <package android:name="old" />'', ''  <intent />'']\<close>
      and closeL = "''</queries>''" and post = "[''</m>'']" and pkgs = "[''com.a'']", THEN conjunct1]
  note ios = interior_lines [where content = ?e and before = "[''<dict>'']"
      and keyL = "''<key>keychain-access-groups</key>''"
      and inside = "[''<array>'', ''<string>old</string>'']" and endL = "''</array>''"
      and behind = "[''</dict>'']" and bundleId = "''com.app''" and keychains = "[''com.k1'']",
      THEN conjunct2]
  from android [THEN mp, OF m]
  have a: \<open>updateManifest ?m [''com.a'']
     = Some (join_nl [''<m>'', ''<queries>'', ''  <package android:name="com.a" />'',
         ''  <intent />'', ''</queries>'', ''</m>''])\<close>
    by (simp add: leadingSpace_def js_space_def packageLine_def isPackageEntry_def)
  from ios [THEN mp, OF e]
  have b: "updateEntitlements ?e ''com.app'' [''com.k1'']
     = join_nl [''<dict>'', ''<key>keychain-access-groups</key>'', CHR 0x09 # ''<array>'',
         CHR 0x09 # CHR 0x09 # ''<string>$(AppIdentifierPrefix)com.app</string>'',
         CHR 0x09 # CHR 0x09 # ''<string>$(AppIdentifierPrefix)com.k1</string>'',
         ''</array>'', ''</dict>'']"
    by (simp add: keychainKey_def arrayOpenLine_def groupLine_def)
  from a b show ?thesis by blast
qed

text \<open>
  C3 as stated fails in the entitlements editor: a comment between the key line and
  the end of the array is an interior line that is no string entry, and it is not in
  the text written.
\<close>

theorem interior_comment_counterexample:
  "''<!-- shared with the widget -->'' \<in> set (split_nl
      ''<dict>\<newline><key>keychain-access-groups</key>\<newline><array>\<newline><!-- shared with the widget -->\<newline><string>old</string>\<newline></array>\<newline></dict>'')
   \<and> ''<!-- shared with the widget -->'' \<notin> set (split_nl (updateEntitlements
      ''<dict>\<newline><key>keychain-access-groups</key>\<newline><array>\<newline><!-- shared with the widget -->\<newline><string>old</string>\<newline></array>\<newline></dict>''
      ''com.app'' [''com.k1'']))"
  by (simp add: updateEntitlements_def keychainKey_def arrayOpenLine_def groupLine_def)

section \<open>The self-closing and the empty queries tag\<close>

lemma marker_not_across:
  assumes "\<not> js_includes A m" and "A \<noteq> []" and "m \<noteq> []" and "hd m \<notin> set (tl m)"
      and "prefix m S"
  shows "\<not> prefix m (A @ S)"
proof
  assume "prefix m (A @ S)"
  then consider "prefix m A" | us where "m = A @ us" "prefix us S"
    unfolding prefix_append by blast
  then show False
  proof cases
    case 1
    then obtain b where "A = [] @ m @ b" by (auto simp: prefix_def)
    then have "js_includes A m" unfolding js_includes_iff by blast
    with assms show False by simp
  next
    case 2
    show False
    proof (cases us)
      case Nil
      with 2 have "A = [] @ m @ []" by simp
      then have "js_includes A m" unfolding js_includes_iff by blast
      with assms show False by simp
    next
      case (Cons u us')
      from assms(3) obtain h t where m: "m = h # t" by (cases m) auto
      from assms(5) m obtain S' where "S = h # S'" by (auto simp: prefix_def)
      with 2(2) Cons have "u = h" by simp
      moreover from assms(2) obtain a A' where "A = a # A'" by (cases A) auto
      ultimately have "t = A' @ h # us'" using 2(1) Cons m by simp
      then have "h \<in> set t" by simp
      with assms(4) m show False by simp
    qed
  qed
qed

lemma emptyQueriesAt_no_open: "\<not> prefix ''<queries'' s \<Longrightarrow> emptyQueriesAt s = None"
  by (simp add: emptyQueriesAt_def)

lemma emptyQueriesAt_not_across:
  assumes "\<not> js_includes (c # X) ''<queries''" and "prefix ''<queries'' S"
  shows "emptyQueriesAt (c # X @ S) = None"
proof -
  have "\<not> prefix ''<queries'' ((c # X) @ S)"
    using assms(1) _ _ _ assms(2) by (rule marker_not_across) simp_all
  then have "emptyQueriesAt ((c # X) @ S) = None" by (rule emptyQueriesAt_no_open)
  then show ?thesis by simp
qed

lemma emptyQueriesAt_Some_prefix: "emptyQueriesAt S = Some n \<Longrightarrow> prefix ''<queries'' S"
  by (simp add: emptyQueriesAt_def split: if_splits)

lemma replaceEmptyQueries_first:
  "\<not> js_includes X ''<queries'' \<Longrightarrow> emptyQueriesAt S = Some n \<Longrightarrow>
   replaceEmptyQueries (X @ S) = X @ ''<queries>'' @ CHR 0x0A # ''</queries>'' @ drop n S"
proof (induction X)
  case Nil
  from Nil.prems(2) obtain c S' where "S = c # S'"
    by (cases S) (auto simp: emptyQueriesAt_def)
  with Nil.prems(2) show ?case by simp
next
  case (Cons c X)
  from Cons.prems(1) have "\<not> js_includes X ''<queries''" by simp
  with Cons have ih: "replaceEmptyQueries (X @ S) =
     X @ ''<queries>'' @ CHR 0x0A # ''</queries>'' @ drop n S" by blast
  have "emptyQueriesAt (c # X @ S) = None"
    using Cons.prems(1) emptyQueriesAt_Some_prefix [OF Cons.prems(2)]
    by (rule emptyQueriesAt_not_across)
  with ih show ?case by simp
qed

lemma testEmptyQueries_first:
  "\<not> js_includes X ''<queries'' \<Longrightarrow> prefix ''<queries'' S \<Longrightarrow>
   testEmptyQueries (X @ S) = testEmptyQueries S"
proof (induction X)
  case Nil
  show ?case by simp
next
  case (Cons c X)
  from Cons.prems have "\<not> js_includes X ''<queries''" by simp
  with Cons have ih: "testEmptyQueries (X @ S) = testEmptyQueries S" by blast
  have "emptyQueriesAt (c # X @ S) = None"
    using Cons.prems by (rule emptyQueriesAt_not_across)
  with ih show ?case by simp
qed

lemma emptyQueriesAt_selfclosing:
  assumes "\<forall>c\<in>set ws. js_space c"
  shows "emptyQueriesAt (''<queries'' @ ws @ ''/>'' @ Y) = Some (length ws + 10)"
proof -
  have "\<not> js_space CHR ''/''" by (simp add: js_space_def)
  with assms have "takeWhile js_space (ws @ CHR ''/'' # CHR ''>'' # Y) = ws"
    "dropWhile js_space (ws @ CHR ''/'' # CHR ''>'' # Y) = CHR ''/'' # CHR ''>'' # Y"
    by (simp_all add: takeWhile_tail dropWhile_append3)
  then show ?thesis by (simp add: emptyQueriesAt_def)
qed

lemma emptyQueriesAt_empty_pair:
  assumes "\<forall>c\<in>set ws. js_space c"
  shows "emptyQueriesAt (''<queries'' @ ws @ ''></queries>'' @ Y) = Some (length ws + 19)"
proof -
  have "\<not> js_space CHR ''>''" by (simp add: js_space_def)
  with assms have "takeWhile js_space (ws @ CHR ''>'' # ''</queries>'' @ Y) = ws"
    "dropWhile js_space (ws @ CHR ''>'' # ''</queries>'' @ Y) = CHR ''>'' # ''</queries>'' @ Y"
    by (simp_all add: takeWhile_tail dropWhile_append3)
  then show ?thesis by (simp add: emptyQueriesAt_def)
qed

lemma testEmptyQueries_explicit:
  "testEmptyQueries (''<queries>'' @ CHR 0x0A # ''</queries>'' @ Y) = testEmptyQueries Y"
proof (cases Y)
  case Nil
  then show ?thesis by (simp add: emptyQueriesAt_def js_space_def)
next
  case (Cons y Y')
  then show ?thesis by (simp add: emptyQueriesAt_def js_space_def)
qed

lemma normalizeQueries_form:
  assumes first: "\<not> js_includes X ''<queries''"
      and ws: "\<forall>c\<in>set ws. js_space c"
      and form: "form = ''<queries'' @ ws @ ''/>'' \<or> form = ''<queries'' @ ws @ ''></queries>''"
  shows "normalizeQueries (X @ form @ Y) = X @ ''<queries>'' @ CHR 0x0A # ''</queries>'' @ Y"
proof -
  from form obtain n where at: "emptyQueriesAt (form @ Y) = Some n"
    and dr: "drop n (form @ Y) = Y"
  proof
    assume f: "form = ''<queries'' @ ws @ ''/>''"
    show ?thesis
    proof (rule that [of "length ws + 10"])
      show "emptyQueriesAt (form @ Y) = Some (length ws + 10)"
        using emptyQueriesAt_selfclosing [OF ws, of Y] f by simp
      have "length form = length ws + 10" using f by simp
      then show "drop (length ws + 10) (form @ Y) = Y" by (metis append_eq_conv_conj)
    qed
  next
    assume f: "form = ''<queries'' @ ws @ ''></queries>''"
    show ?thesis
    proof (rule that [of "length ws + 19"])
      show "emptyQueriesAt (form @ Y) = Some (length ws + 19)"
        using emptyQueriesAt_empty_pair [OF ws, of Y] f by simp
      have "length form = length ws + 19" using f by simp
      then show "drop (length ws + 19) (form @ Y) = Y" by (metis append_eq_conv_conj)
    qed
  qed
  from at obtain c S' where S: "form @ Y = c # S'"
    by (cases "form @ Y") (auto simp: emptyQueriesAt_def)
  with at have "testEmptyQueries (form @ Y)" by simp
  then have t: "testEmptyQueries (X @ form @ Y)"
    using testEmptyQueries_first [OF first emptyQueriesAt_Some_prefix [OF at]] by simp
  have "replaceEmptyQueries (X @ form @ Y) =
      X @ ''<queries>'' @ CHR 0x0A # ''</queries>'' @ Y"
    using replaceEmptyQueries_first [OF first at] dr by simp
  with t show ?thesis by (simp add: normalizeQueries_def)
qed

text \<open>
  C6, as it holds of the code.  Let the self-closing tag or the empty pair on one line
  be the first occurrence of the open marker in the manifest, with no further such form
  behind it.  Then reconciling this manifest gives the same result as reconciling the
  manifest that has in its place the open marker, a line feed and the close marker at
  the very start of the next line.
\<close>

theorem selfclosing_converges:
  assumes first: "\<not> js_includes X ''<queries''"
      and ws: "\<forall>c\<in>set ws. js_space c"
      and form: "form = ''<queries'' @ ws @ ''/>'' \<or> form = ''<queries'' @ ws @ ''></queries>''"
      and rest: "\<not> testEmptyQueries Y"
  shows "updateManifest (X @ form @ Y) pkgs =
         updateManifest (X @ ''<queries>'' @ CHR 0x0A # ''</queries>'' @ Y) pkgs"
proof -
  let ?explicit = "X @ ''<queries>'' @ CHR 0x0A # ''</queries>'' @ Y"
  have n1: "normalizeQueries (X @ form @ Y) = ?explicit"
    using first ws form by (rule normalizeQueries_form)
  have "prefix ''<queries'' (''<queries>'' @ CHR 0x0A # ''</queries>'' @ Y)" by simp
  then have "testEmptyQueries ?explicit = testEmptyQueries (''<queries>'' @ CHR 0x0A # ''</queries>'' @ Y)"
    using first by (intro testEmptyQueries_first)
  with rest have "\<not> testEmptyQueries ?explicit" by (simp only: testEmptyQueries_explicit simp_thms)
  then have n2: "normalizeQueries ?explicit = ?explicit" by (simp add: normalizeQueries_def)
  have "js_includes (form @ Y) ''<queries''" using form by auto
  then have i1: "js_includes (X @ form @ Y) ''<queries''" by (rule js_includes_appendI2)
  have "js_includes (''<queries>'' @ CHR 0x0A # ''</queries>'' @ Y) ''<queries''" by simp
  then have i2: "js_includes ?explicit ''<queries''" by (rule js_includes_appendI2)
  show ?thesis
    unfolding updateManifest_def n1 n2 using i1 i2 by simp
qed

theorem selfclosing_converges_witness:
  "updateManifest ''<manifest>\<newline><queries />\<newline><application/>\<newline></manifest>'' [''com.a'']
   = updateManifest
       ''<manifest>\<newline><queries>\<newline></queries>\<newline><application/>\<newline></manifest>'' [''com.a'']"
proof -
  have 1: "\<not> js_includes ''<manifest>\<newline>'' ''<queries''" by simp
  have 2: "\<forall>c\<in>set '' ''. js_space c" by (simp add: js_space_def)
  have 3: "''<queries />'' = ''<queries'' @ '' '' @ ''/>''
      \<or> ''<queries />'' = ''<queries'' @ '' '' @ ''></queries>''" by simp
  have 4: "\<not> testEmptyQueries ''\<newline><application/>\<newline></manifest>''"
    by (simp add: emptyQueriesAt_def)
  from selfclosing_converges [OF 1 2 3 4, of "[''com.a'']"]
  show ?thesis by simp
qed

text \<open>
  C6 as stated fails for the explicit pair as it is usually written, with the close
  marker indented like the open marker: the replacement made for the self-closing tag
  puts the close marker at the start of its line, and the two results differ there.
\<close>

theorem selfclosing_indentation_counterexample:
  "updateManifest ''<manifest>\<newline>  <queries/>\<newline>  <application/>\<newline></manifest>'' [''com.a'']
   \<noteq> updateManifest
       ''<manifest>\<newline>  <queries>\<newline>  </queries>\<newline>  <application/>\<newline></manifest>'' [''com.a'']"
  by (simp add: eval_simps)

section \<open>Lines that carry no marker\<close>

lemma js_includes_skip:
  "c \<notin> set A \<Longrightarrow> js_includes (A @ s) (c # t) = js_includes s (c # t)"
  by (induction A) auto

lemma leadingSpace_spaces: "\<forall>c\<in>set (leadingSpace l). js_space c"
  unfolding leadingSpace_def by (auto dest: set_takeWhileD)

lemma leadingSpace_subset: "set (leadingSpace l) \<subseteq> set l"
  unfolding leadingSpace_def by (auto dest: set_takeWhileD)

lemma not_space_lt: "\<not> js_space CHR ''<''"
  by (simp add: js_space_def)

lemma not_space_newline_free: "CHR 0x0A \<notin> set l \<Longrightarrow> CHR 0x0A \<notin> set (leadingSpace l)"
  using leadingSpace_subset [of l] by blast

lemma leadingSpace_no_lt: "CHR ''<'' \<notin> set (leadingSpace l)"
  using leadingSpace_spaces [of l] not_space_lt by blast

lemma leadingSpace_indent:
  "\<forall>c\<in>set ws. js_space c \<Longrightarrow> leadingSpace (ws @ CHR ''<'' # s) = ws"
  unfolding leadingSpace_def by (simp add: takeWhile_tail js_space_def)

lemma js_includes_midI: "js_includes (a @ t @ b) t"
  unfolding js_includes_iff by blast

lemma packageLine_isPackageEntry: "isPackageEntry (packageLine ind p)"
proof -
  have e1: "packageLine ind p =
      ind @ ''<package'' @ (CHR '' '' # ''android:name'' @ CHR ''='' # CHR 0x22 # p @ CHR 0x22 # '' />'')"
    by (simp add: packageLine_def)
  have a: "js_includes (packageLine ind p) ''<package''"
    unfolding e1 by (rule js_includes_midI)
  have e2: "packageLine ind p =
      (ind @ ''<package '') @ ''android:name'' @ (CHR ''='' # CHR 0x22 # p @ CHR 0x22 # '' />'')"
    by (simp add: packageLine_def)
  have b: "js_includes (packageLine ind p) ''android:name''"
    unfolding e2 by (rule js_includes_midI)
  from a b show ?thesis by (simp only: isPackageEntry_def simp_thms)
qed

lemma packageLine_no_marker:
  assumes "CHR ''<'' \<notin> set ind" and "CHR ''<'' \<notin> set p"
  shows "\<not> js_includes (packageLine ind p) ''<queries''"
    and "\<not> js_includes (packageLine ind p) ''</queries>''"
  using assms by (simp_all add: packageLine_def js_includes_skip)

lemma packageLine_no_newline:
  "CHR 0x0A \<notin> set ind \<Longrightarrow> CHR 0x0A \<notin> set p \<Longrightarrow> CHR 0x0A \<notin> set (packageLine ind p)"
  by (simp add: packageLine_def)

lemma filter_packageLines:
  "filter (\<lambda>l. \<not> isPackageEntry l) (map (packageLine ind) ps @ xs) =
   filter (\<lambda>l. \<not> isPackageEntry l) xs"
  by (induction ps) (simp_all add: packageLine_isPackageEntry)

lemma groupLine_no_marker:
  assumes "CHR ''<'' \<notin> set k"
  shows "\<not> js_includes (groupLine k) keychainKey"
    and "\<not> js_includes (groupLine k) ''</array>''"
  using assms by (simp_all add: groupLine_def keychainKey_def js_includes_skip)

lemma groupLine_no_newline: "CHR 0x0A \<notin> set k \<Longrightarrow> CHR 0x0A \<notin> set (groupLine k)"
  by (simp add: groupLine_def)

lemma arrayOpenLine_no_marker:
  "\<not> js_includes arrayOpenLine keychainKey" "\<not> js_includes arrayOpenLine ''</array>''"
  "CHR 0x0A \<notin> set arrayOpenLine"
  by (simp_all add: arrayOpenLine_def keychainKey_def)

lemma firstIncluding_prefix:
  "firstIncluding t (A @ B) i = Some k \<Longrightarrow> k < i + length A \<Longrightarrow>
   firstIncluding t (A @ B') i = Some k"
proof (induction A arbitrary: i)
  case Nil
  then have "i \<le> k" using firstIncluding_SomeD [of t B i k] by auto
  with Nil show ?case by simp
next
  case (Cons a A)
  then show ?case by (cases "js_includes a t") auto
qed

section \<open>Reconciling a reconciled manifest\<close>

lemma updateManifest_unclosed:
  assumes inc: "js_includes manifestContent ''<queries''"
      and lines: "split_nl (normalizeQueries manifestContent) = pre @ openL # rest"
      and pre: "\<forall>l\<in>set pre. \<not> js_includes l ''<queries''"
      and openL: "js_includes openL ''<queries''"
      and close: "firstIncluding ''</queries>'' (pre @ [openL]) 0 = Some qc"
  shows "updateManifest manifestContent pkgs =
           Some (join_nl (pre @ openL # map (packageLine (leadingSpace openL @ ''  '')) pkgs
                   @ filter (\<lambda>l. \<not> isPackageEntry l) rest))"
proof -
  from close have qc: "qc < length (pre @ [openL])"
    by (simp only: firstIncluding_Some_iff)
  have "firstIncluding ''</queries>'' ((pre @ [openL]) @ rest) 0 = Some qc"
  proof (rule firstIncluding_prefix)
    show "firstIncluding ''</queries>'' ((pre @ [openL]) @ []) 0 = Some qc"
      using close by simp
    show "qc < 0 + length (pre @ [openL])" using qc by simp
  qed
  then have c: "firstIncluding ''</queries>'' (pre @ openL # rest) 0 = Some qc" by simp
  have o: "firstIncluding ''<queries'' (pre @ openL # rest) 0 = Some (0 + length pre)"
    using pre openL by (rule firstIncluding_hit)
  have f: "findQueries (pre @ openL # rest) 0 (None, None) = (Some (length pre), Some qc)"
    using o c by (simp add: findQueries_first)
  have at: "(pre @ openL # rest) ! length pre = openL" by simp
  from qc have le: "qc \<le> length pre" by simp
  show ?thesis
    using inc by (simp add: updateManifest_def Let_def lines f at rewriteQueries_unclosed [OF le])
qed

lemma packageLines_clean:
  assumes "\<forall>p\<in>set pkgs. CHR ''<'' \<notin> set p \<and> CHR 0x0A \<notin> set p"
      and "CHR 0x0A \<notin> set openL"
  shows "\<forall>l\<in>set (map (packageLine (leadingSpace openL @ ''  '')) pkgs).
           \<not> js_includes l ''<queries'' \<and> \<not> js_includes l ''</queries>'' \<and> CHR 0x0A \<notin> set l"
proof
  fix l assume "l \<in> set (map (packageLine (leadingSpace openL @ ''  '')) pkgs)"
  then obtain p where p: "p \<in> set pkgs" "l = packageLine (leadingSpace openL @ ''  '') p" by auto
  have lt: "CHR ''<'' \<notin> set (leadingSpace openL @ ''  '')"
    using leadingSpace_no_lt [of openL] by simp
  have nl: "CHR 0x0A \<notin> set (leadingSpace openL @ ''  '')"
    using not_space_newline_free [OF assms(2)] by simp
  from p assms(1) have "CHR ''<'' \<notin> set p" "CHR 0x0A \<notin> set p" by auto
  with lt nl p show "\<not> js_includes l ''<queries'' \<and> \<not> js_includes l ''</queries>'' \<and> CHR 0x0A \<notin> set l"
    by (simp add: packageLine_no_marker packageLine_no_newline)
qed

lemma reconciled_section:
  assumes benign: "\<forall>p\<in>set pkgs. CHR ''<'' \<notin> set p \<and> CHR 0x0A \<notin> set p"
      and nl: "\<forall>l\<in>set (pre @ openL # mid @ closeL # post). CHR 0x0A \<notin> set l"
      and pre: "\<forall>l\<in>set pre. \<not> js_includes l ''<queries'' \<and> \<not> js_includes l ''</queries>''"
      and openL: "js_includes openL ''<queries''" "\<not> js_includes openL ''</queries>''"
      and mid: "\<forall>l\<in>set mid. \<not> js_includes l ''</queries>''"
      and closeL: "js_includes closeL ''</queries>''"
      and once: "once = join_nl (pre @ openL # map (packageLine (leadingSpace openL @ ''  '')) pkgs
                   @ filter (\<lambda>l. \<not> isPackageEntry l) mid @ closeL # post)"
      and settled: "\<not> testEmptyQueries once"
  shows "updateManifest once pkgs = Some once"
proof -
  let ?P = "map (packageLine (leadingSpace openL @ ''  '')) pkgs"
  let ?np = "\<lambda>l. \<not> isPackageEntry l"
  let ?out = "pre @ openL # (?P @ filter ?np mid) @ closeL # post"
  from nl have "CHR 0x0A \<notin> set openL" by simp
  with benign have P: "\<forall>l\<in>set ?P.
      \<not> js_includes l ''<queries'' \<and> \<not> js_includes l ''</queries>'' \<and> CHR 0x0A \<notin> set l"
    by (rule packageLines_clean)
  have once': "once = join_nl ?out" using once by simp
  have "\<forall>l\<in>set ?out. CHR 0x0A \<notin> set l" using nl P by auto
  then have sp: "split_nl once = ?out" unfolding once' by (intro split_join_nl) simp_all
  have "openL \<in> set ?out" by simp
  then have inc: "js_includes once ''<queries''"
    unfolding once' using openL(1) by (rule join_nl_includes)
  have norm: "normalizeQueries once = once" using settled by (simp add: normalizeQueries_def)
  have mid': "\<forall>l\<in>set (?P @ filter ?np mid). \<not> js_includes l ''</queries>''"
    using P mid by auto
  have "updateManifest once pkgs =
      Some (join_nl (pre @ openL # ?P @ filter ?np (?P @ filter ?np mid) @ closeL # post))"
    using inc _ pre openL mid' closeL
    by (rule updateManifest_section) (simp only: norm sp)
  then show ?thesis unfolding filter_packageLines once by simp
qed

lemma reconciled_unclosed:
  assumes benign: "\<forall>p\<in>set pkgs. CHR ''<'' \<notin> set p \<and> CHR 0x0A \<notin> set p"
      and nl: "\<forall>l\<in>set (pre @ openL # rest). CHR 0x0A \<notin> set l"
      and pre: "\<forall>l\<in>set pre. \<not> js_includes l ''<queries''"
      and openL: "js_includes openL ''<queries''"
      and close: "firstIncluding ''</queries>'' (pre @ [openL]) 0 = Some qc"
      and once: "once = join_nl (pre @ openL # map (packageLine (leadingSpace openL @ ''  '')) pkgs
                   @ filter (\<lambda>l. \<not> isPackageEntry l) rest)"
      and settled: "\<not> testEmptyQueries once"
  shows "updateManifest once pkgs = Some once"
proof -
  let ?P = "map (packageLine (leadingSpace openL @ ''  '')) pkgs"
  let ?np = "\<lambda>l. \<not> isPackageEntry l"
  let ?out = "pre @ openL # (?P @ filter ?np rest)"
  from nl have "CHR 0x0A \<notin> set openL" by simp
  with benign have P: "\<forall>l\<in>set ?P.
      \<not> js_includes l ''<queries'' \<and> \<not> js_includes l ''</queries>'' \<and> CHR 0x0A \<notin> set l"
    by (rule packageLines_clean)
  have once': "once = join_nl ?out" using once by simp
  have "\<forall>l\<in>set ?out. CHR 0x0A \<notin> set l" using nl P by auto
  then have sp: "split_nl once = ?out" unfolding once' by (intro split_join_nl) simp_all
  have "openL \<in> set ?out" by simp
  then have inc: "js_includes once ''<queries''"
    unfolding once' using openL by (rule join_nl_includes)
  have norm: "normalizeQueries once = once" using settled by (simp add: normalizeQueries_def)
  have "updateManifest once pkgs =
      Some (join_nl (pre @ openL # ?P @ filter ?np (?P @ filter ?np rest)))"
    using inc _ pre openL close
    by (rule updateManifest_unclosed) (simp only: norm sp)
  then show ?thesis unfolding filter_packageLines once by simp
qed

lemma updateManifest_idempotent:
  assumes benign: "\<forall>p\<in>set pkgs. CHR ''<'' \<notin> set p \<and> CHR 0x0A \<notin> set p"
      and once: "updateManifest manifestContent pkgs = Some once"
      and settled: "\<not> testEmptyQueries once"
      and paired: "js_includes manifestContent ''</queries>'' \<longrightarrow> js_includes manifestContent ''<queries''"
  shows "updateManifest once pkgs = Some once"
proof (cases "js_includes manifestContent ''<queries''")
  case True
  define lines where "lines = split_nl (normalizeQueries manifestContent)"
  have nl: "\<forall>l\<in>set lines. CHR 0x0A \<notin> set l"
    unfolding lines_def using split_nl_no_newline by blast
  from once True obtain qo qc where
    f: "findQueries lines 0 (None, None) = (Some qo, Some qc)" and
    o: "once = join_nl (rewriteQueries qo qc (leadingSpace (lines ! qo) @ ''  '') pkgs lines 0 False)"
    by (auto simp: updateManifest_def Let_def lines_def split: prod.splits option.splits)
  from f have fo: "firstIncluding ''<queries'' lines 0 = Some qo"
    and fc: "firstIncluding ''</queries>'' lines 0 = Some qc"
    by (simp_all add: findQueries_first)
  from firstIncluding_SomeD [OF fo] obtain pre openL rest where
    dec: "lines = pre @ openL # rest" and qo: "qo = length pre"
    and openL: "js_includes openL ''<queries''"
    and pre: "\<forall>x\<in>set pre. \<not> js_includes x ''<queries''" by auto
  have at: "lines ! qo = openL" by (simp add: dec qo)
  show ?thesis
  proof (cases "qc \<le> qo")
    case True
    have close: "firstIncluding ''</queries>'' (pre @ [openL]) 0 = Some qc"
    proof -
      have "firstIncluding ''</queries>'' ((pre @ [openL]) @ []) 0 = Some qc"
      proof (rule firstIncluding_prefix)
        show "firstIncluding ''</queries>'' ((pre @ [openL]) @ rest) 0 = Some qc"
          using fc dec by simp
        show "qc < 0 + length (pre @ [openL])" using True qo by simp
      qed
      then show ?thesis by simp
    qed
    from True qo have le: "qc \<le> length pre" by simp
    have "rewriteQueries qo qc (leadingSpace openL @ ''  '') pkgs lines 0 False =
        pre @ openL # map (packageLine (leadingSpace openL @ ''  '')) pkgs
          @ filter (\<lambda>l. \<not> isPackageEntry l) rest"
      unfolding qo dec using le by (rule rewriteQueries_unclosed)
    with o have "once = join_nl (pre @ openL # map (packageLine (leadingSpace openL @ ''  '')) pkgs
                   @ filter (\<lambda>l. \<not> isPackageEntry l) rest)"
      by (simp add: at)
    with benign nl pre openL close settled show ?thesis
      unfolding dec by (intro reconciled_unclosed) simp_all
  next
    case False
    from firstIncluding_SomeD [OF fc] obtain preC closeL post where
      decC: "lines = preC @ closeL # post" and qc: "qc = length preC"
      and closeL: "js_includes closeL ''</queries>''"
      and preC: "\<forall>x\<in>set preC. \<not> js_includes x ''</queries>''" by auto
    define mid where "mid = drop (Suc qo) preC"
    from False qo qc have lt: "Suc (length pre) \<le> length preC" by simp
    have "take (Suc (length pre)) (pre @ openL # rest) = take (Suc (length pre)) (preC @ closeL # post)"
      using dec decC by simp
    then have "pre @ [openL] = take (Suc (length pre)) preC" using lt by simp
    then have preC_dec: "preC = pre @ openL # mid"
      unfolding mid_def qo by (metis append_take_drop_id append.assoc append_Cons append_Nil)
    have dec2: "lines = pre @ openL # mid @ closeL # post"
      using decC preC_dec by simp
    have qc2: "qc = Suc (length pre + length mid)" using qc preC_dec by simp
    have pre2: "\<forall>l\<in>set pre. \<not> js_includes l ''<queries'' \<and> \<not> js_includes l ''</queries>''"
      using pre preC preC_dec by simp
    have openL2: "\<not> js_includes openL ''</queries>''" using preC preC_dec by simp
    have mid2: "\<forall>l\<in>set mid. \<not> js_includes l ''</queries>''" using preC preC_dec by simp
    have "rewriteQueries qo qc (leadingSpace openL @ ''  '') pkgs lines 0 False =
        pre @ openL # map (packageLine (leadingSpace openL @ ''  '')) pkgs
          @ filter (\<lambda>l. \<not> isPackageEntry l) mid @ closeL # post"
      unfolding qo qc2 dec2 by (rule rewriteQueries_section)
    with o have "once = join_nl (pre @ openL # map (packageLine (leadingSpace openL @ ''  '')) pkgs
                   @ filter (\<lambda>l. \<not> isPackageEntry l) mid @ closeL # post)"
      by (simp add: at)
    with benign nl pre2 openL openL2 mid2 closeL settled show ?thesis
      unfolding dec2 by (intro reconciled_section) simp_all
  qed
next
  case False
  with paired have noclose: "\<not> js_includes manifestContent ''</queries>''" by simp
  define lines where "lines = split_nl manifestContent"
  have nl: "\<forall>l\<in>set lines. CHR 0x0A \<notin> set l"
    unfolding lines_def using split_nl_no_newline by blast
  have clean: "\<forall>l\<in>set lines. \<not> js_includes l ''<queries'' \<and> \<not> js_includes l ''</queries>''"
    unfolding lines_def using False noclose split_nl_includes by blast
  from once False obtain a where
    fa: "findApplication lines 0 = Some a" and
    o: "once = join_nl (insertQueries a (leadingSpace (lines ! a)) pkgs lines 0)"
    by (auto simp: updateManifest_def Let_def lines_def split: option.splits)
  from fa have "firstIncluding ''<application'' lines 0 = Some a"
    by (simp add: findApplication_first)
  from firstIncluding_SomeD [OF this] obtain pre appL post where
    dec: "lines = pre @ appL # post" and a: "a = length pre" by auto
  define ind where "ind = leadingSpace appL"
  have at: "lines ! a = appL" by (simp add: dec a)
  have ind_sp: "\<forall>c\<in>set ind. js_space c" unfolding ind_def by (rule leadingSpace_spaces)
  have ind_lt: "CHR ''<'' \<notin> set ind" unfolding ind_def by (rule leadingSpace_no_lt)
  have ind_nl: "CHR 0x0A \<notin> set ind"
    unfolding ind_def using nl dec by (intro not_space_newline_free) simp
  have ls: "leadingSpace (ind @ ''<queries>'') = ind"
    using leadingSpace_indent [OF ind_sp, of "''queries>''"] by simp
  have "insertQueries a ind pkgs lines 0 =
      pre @ (ind @ ''<queries>'') # map (packageLine (ind @ ''  '')) pkgs
        @ [ind @ ''</queries>'', '''', appL] @ post"
    unfolding a dec by (rule insertQueries_anchor)
  with o have o2: "once = join_nl (pre @ (ind @ ''<queries>'')
                # map (packageLine (leadingSpace (ind @ ''<queries>'') @ ''  '')) pkgs
                @ filter (\<lambda>l. \<not> isPackageEntry l) [] @ (ind @ ''</queries>'') # ('''' # appL # post))"
    by (simp add: at ind_def [symmetric] ls)
  have nl2: "\<forall>l\<in>set (pre @ (ind @ ''<queries>'') # [] @ (ind @ ''</queries>'') # ('''' # appL # post)).
      CHR 0x0A \<notin> set l"
    using nl dec ind_nl by simp
  have pre2: "\<forall>l\<in>set pre. \<not> js_includes l ''<queries'' \<and> \<not> js_includes l ''</queries>''"
    using clean dec by simp
  have open1: "js_includes (ind @ ''<queries>'') ''<queries''"
    by (rule js_includes_appendI2) simp
  have open2: "\<not> js_includes (ind @ ''<queries>'') ''</queries>''"
    using ind_lt by (simp add: js_includes_skip)
  have close1: "js_includes (ind @ ''</queries>'') ''</queries>''"
    by (rule js_includes_appendI2) simp
  from benign nl2 pre2 open1 open2 _ close1 o2 settled show ?thesis
    by (rule reconciled_section) simp
qed

section \<open>Reconciling a reconciled entitlements file\<close>

lemma updateKeychainLines_skip_entries:
  "\<forall>e\<in>set es. \<not> js_includes e keychainKey \<and> \<not> js_includes e ''</array>'' \<Longrightarrow>
   updateKeychainLines bundleId keychains True (es @ xs) = updateKeychainLines bundleId keychains True xs"
  by (induction es) simp_all

lemma entries_clean:
  assumes "\<forall>k\<in>set (bundleId # keychains). CHR ''<'' \<notin> set k \<and> CHR 0x0A \<notin> set k"
  shows "\<forall>e\<in>set (arrayOpenLine # groupLine bundleId # map groupLine keychains).
           \<not> js_includes e keychainKey \<and> \<not> js_includes e ''</array>'' \<and> CHR 0x0A \<notin> set e"
proof
  fix e assume "e \<in> set (arrayOpenLine # groupLine bundleId # map groupLine keychains)"
  then consider "e = arrayOpenLine" | k where "k \<in> set (bundleId # keychains)" "e = groupLine k"
    by auto
  then show "\<not> js_includes e keychainKey \<and> \<not> js_includes e ''</array>'' \<and> CHR 0x0A \<notin> set e"
  proof cases
    case 1
    then show ?thesis by (simp add: arrayOpenLine_no_marker)
  next
    case 2
    with assms have "CHR ''<'' \<notin> set k" "CHR 0x0A \<notin> set k" by auto
    with 2 show ?thesis by (simp add: groupLine_no_marker groupLine_no_newline)
  qed
qed

lemma updateKeychainLines_idempotent:
  assumes "\<forall>k\<in>set (bundleId # keychains). CHR ''<'' \<notin> set k \<and> CHR 0x0A \<notin> set k"
  shows "updateKeychainLines bundleId keychains s (updateKeychainLines bundleId keychains s xs) =
         updateKeychainLines bundleId keychains s xs"
proof (induction xs arbitrary: s)
  case Nil
  show ?case by simp
next
  case (Cons x xs)
  let ?es = "arrayOpenLine # groupLine bundleId # map groupLine keychains"
  have es: "\<forall>e\<in>set ?es. \<not> js_includes e keychainKey \<and> \<not> js_includes e ''</array>''"
    using entries_clean [OF assms] by blast
  show ?case
  proof (cases "js_includes x keychainKey")
    case True
    have "updateKeychainLines bundleId keychains True
            (?es @ updateKeychainLines bundleId keychains True xs) =
          updateKeychainLines bundleId keychains True (updateKeychainLines bundleId keychains True xs)"
      using es by (rule updateKeychainLines_skip_entries)
    with True Cons.IH [of True] show ?thesis by simp
  next
    case False
    with Cons.IH [of False] Cons.IH [of True] show ?thesis by simp
  qed
qed

lemma updateKeychainLines_no_key:
  "\<forall>l\<in>set xs. \<not> js_includes l keychainKey \<Longrightarrow>
   updateKeychainLines bundleId keychains False xs = xs"
  by (induction xs) simp_all

lemma updateKeychainLines_no_newline:
  assumes "\<forall>k\<in>set (bundleId # keychains). CHR ''<'' \<notin> set k \<and> CHR 0x0A \<notin> set k"
      and "\<forall>l\<in>set xs. CHR 0x0A \<notin> set l"
  shows "\<forall>l\<in>set (updateKeychainLines bundleId keychains s xs). CHR 0x0A \<notin> set l"
  using assms(2)
proof (induction xs arbitrary: s)
  case Nil
  show ?case by simp
next
  case (Cons x xs)
  have es: "\<forall>e\<in>set (arrayOpenLine # groupLine bundleId # map groupLine keychains). CHR 0x0A \<notin> set e"
    using entries_clean [OF assms(1)] by blast
  from Cons.prems have x: "CHR 0x0A \<notin> set x" and xs: "\<forall>l\<in>set xs. CHR 0x0A \<notin> set l" by simp_all
  from Cons.IH [OF xs] have ih: "\<And>s. \<forall>l\<in>set (updateKeychainLines bundleId keychains s xs). CHR 0x0A \<notin> set l" .
  show ?case using es x ih [of True] ih [of False] by (cases s) auto
qed

lemma addKeychainLines_no_newline:
  assumes "\<forall>k\<in>set (bundleId # keychains). CHR ''<'' \<notin> set k \<and> CHR 0x0A \<notin> set k"
      and "\<forall>l\<in>set xs. CHR 0x0A \<notin> set l"
  shows "\<forall>l\<in>set (addKeychainLines bundleId keychains xs). CHR 0x0A \<notin> set l"
  using assms(2)
proof (induction xs)
  case Nil
  show ?case by simp
next
  case (Cons x xs)
  have es: "\<forall>e\<in>set (arrayOpenLine # groupLine bundleId # map groupLine keychains). CHR 0x0A \<notin> set e"
    using entries_clean [OF assms(1)] by blast
  have k: "CHR 0x0A \<notin> set (CHR 0x09 # keychainKey)" by (simp add: keychainKey_def)
  from Cons show ?case using es k by auto
qed

lemma updateKeychainLines_added:
  assumes "\<forall>k\<in>set (bundleId # keychains). CHR ''<'' \<notin> set k \<and> CHR 0x0A \<notin> set k"
      and "\<forall>l\<in>set xs. \<not> js_includes l keychainKey"
  shows "updateKeychainLines bundleId keychains False (addKeychainLines bundleId keychains xs) =
         addKeychainLines bundleId keychains xs"
  using assms(2)
proof (induction xs)
  case Nil
  show ?case by simp
next
  case (Cons x xs)
  let ?es = "arrayOpenLine # groupLine bundleId # map groupLine keychains"
  have es: "\<forall>e\<in>set ?es. \<not> js_includes e keychainKey \<and> \<not> js_includes e ''</array>''"
    using entries_clean [OF assms(1)] by blast
  from Cons have x: "\<not> js_includes x keychainKey"
    and ih: "updateKeychainLines bundleId keychains False (addKeychainLines bundleId keychains xs) =
         addKeychainLines bundleId keychains xs" by simp_all
  show ?case
  proof (cases "js_includes x ''</dict>''")
    case False
    with x ih show ?thesis by simp
  next
    case True
    let ?rest = "(CHR 0x09 # ''</array>'') # x # addKeychainLines bundleId keychains xs"
    have key: "js_includes (CHR 0x09 # keychainKey) keychainKey"
      using js_includes_midI [of "[CHR 0x09]" keychainKey "[]"] by simp
    have close: "\<not> js_includes (CHR 0x09 # ''</array>'') keychainKey"
      "js_includes (CHR 0x09 # ''</array>'') ''</array>''"
      by (simp_all add: keychainKey_def)
    have "updateKeychainLines bundleId keychains True (?es @ ?rest) =
        updateKeychainLines bundleId keychains True ?rest"
      using es by (rule updateKeychainLines_skip_entries)
    also have "\<dots> = ?rest" using close x ih by simp
    finally have skip: "updateKeychainLines bundleId keychains True (?es @ ?rest) = ?rest" .
    have "addKeychainLines bundleId keychains (x # xs) = (CHR 0x09 # keychainKey) # ?es @ ?rest"
      using True by simp
    moreover have "updateKeychainLines bundleId keychains False ((CHR 0x09 # keychainKey) # ?es @ ?rest) =
        (CHR 0x09 # keychainKey) # ?es @ updateKeychainLines bundleId keychains True (?es @ ?rest)"
      using key by simp
    ultimately show ?thesis using skip by simp
  qed
qed

lemma updateKeychainLines_keeps_key:
  "l \<in> set xs \<Longrightarrow> js_includes l keychainKey \<Longrightarrow>
   l \<in> set (updateKeychainLines bundleId keychains s xs)"
  by (induction xs arbitrary: s) auto

lemma addKeychainLines_adds_key:
  "l \<in> set xs \<Longrightarrow> js_includes l ''</dict>'' \<Longrightarrow>
   (CHR 0x09 # keychainKey) \<in> set (addKeychainLines bundleId keychains xs)"
  by (induction xs) auto

lemma addKeychainLines_no_dict:
  "\<forall>l\<in>set xs. \<not> js_includes l ''</dict>'' \<Longrightarrow> addKeychainLines bundleId keychains xs = xs"
  by (induction xs) simp_all

lemma updateEntitlements_idempotent:
  assumes benign: "\<forall>k\<in>set (bundleId # keychains). CHR ''<'' \<notin> set k \<and> CHR 0x0A \<notin> set k"
  shows "updateEntitlements (updateEntitlements content bundleId keychains) bundleId keychains =
         updateEntitlements content bundleId keychains"
proof -
  define lines where "lines = split_nl content"
  define once where "once = updateEntitlements content bundleId keychains"
  have nl: "\<forall>l\<in>set lines. CHR 0x0A \<notin> set l"
    unfolding lines_def using split_nl_no_newline by blast
  have same: "once = content \<Longrightarrow> ?thesis" unfolding once_def by simp
  have again: "updateEntitlements once bundleId keychains = once"
    if out: "once = join_nl out" and key: "l \<in> set out" "js_includes l keychainKey"
      and clean: "\<forall>l\<in>set out. CHR 0x0A \<notin> set l"
      and fixed: "updateKeychainLines bundleId keychains False out = out" for out l
  proof -
    from key(1) have "out \<noteq> []" by auto
    then have sp: "split_nl once = out" unfolding out using clean by (rule split_join_nl)
    have "js_includes once keychainKey" unfolding out using key by (rule join_nl_includes)
    then show ?thesis by (simp add: updateEntitlements_def sp fixed out [symmetric])
  qed
  show ?thesis
  proof (cases "\<exists>l\<in>set lines. js_includes l keychainKey")
    case True
    then obtain l where l: "l \<in> set lines" "js_includes l keychainKey" by blast
    then have "js_includes content keychainKey"
      unfolding lines_def by (rule split_nl_includes)
    then have o: "once = join_nl (updateKeychainLines bundleId keychains False lines)"
      by (simp add: once_def updateEntitlements_def lines_def)
    have "updateEntitlements once bundleId keychains = once"
      using o
    proof (rule again)
      show "l \<in> set (updateKeychainLines bundleId keychains False lines)"
        using l by (rule updateKeychainLines_keeps_key)
      show "js_includes l keychainKey" by fact
      show "\<forall>l\<in>set (updateKeychainLines bundleId keychains False lines). CHR 0x0A \<notin> set l"
        using benign nl by (rule updateKeychainLines_no_newline)
      show "updateKeychainLines bundleId keychains False
              (updateKeychainLines bundleId keychains False lines) =
            updateKeychainLines bundleId keychains False lines"
        using benign by (rule updateKeychainLines_idempotent)
    qed
    then show ?thesis by (simp add: once_def)
  next
    case False
    then have nokey: "\<forall>l\<in>set lines. \<not> js_includes l keychainKey" by blast
    show ?thesis
    proof (cases "js_includes content keychainKey")
      case True
      then have "once = join_nl (updateKeychainLines bundleId keychains False lines)"
        by (simp add: once_def updateEntitlements_def lines_def)
      then have "once = join_nl lines"
        by (simp only: updateKeychainLines_no_key [OF nokey])
      then have "once = content" by (simp add: lines_def join_split_nl)
      then show ?thesis by (rule same)
    next
      case False
      then have o: "once = join_nl (addKeychainLines bundleId keychains lines)"
        by (simp add: once_def updateEntitlements_def lines_def)
      show ?thesis
      proof (cases "\<exists>l\<in>set lines. js_includes l ''</dict>''")
        case True
        then obtain d where d: "d \<in> set lines" "js_includes d ''</dict>''" by blast
        have "updateEntitlements once bundleId keychains = once"
          using o
        proof (rule again)
          show "(CHR 0x09 # keychainKey) \<in> set (addKeychainLines bundleId keychains lines)"
            using d by (rule addKeychainLines_adds_key)
          show "js_includes (CHR 0x09 # keychainKey) keychainKey"
            using js_includes_midI [of "[CHR 0x09]" keychainKey "[]"] by simp
          show "\<forall>l\<in>set (addKeychainLines bundleId keychains lines). CHR 0x0A \<notin> set l"
            using benign nl by (rule addKeychainLines_no_newline)
          show "updateKeychainLines bundleId keychains False (addKeychainLines bundleId keychains lines) =
                addKeychainLines bundleId keychains lines"
            using benign nokey by (rule updateKeychainLines_added)
        qed
        then show ?thesis by (simp add: once_def)
      next
        case False
        then have "addKeychainLines bundleId keychains lines = lines"
          by (intro addKeychainLines_no_dict) blast
        with o have "once = join_nl lines" by simp
        then have "once = content" by (simp add: lines_def join_split_nl)
        then show ?thesis by (rule same)
      qed
    qed
  qed
qed

section \<open>Reconciling twice\<close>

text \<open>
  C1, as it holds of the code.  Reconciling the text once more, with the same entries,
  gives the same text again
  \<^item> for the manifest: when no package name holds \<^verbatim>\<open><\<close> or a line feed, the text
    reconciled once holds no self-closing or empty queries tag (which the second run
    would expand), and the manifest has no close marker without an open marker;
  \<^item> for the entitlements file: when neither the bundle id nor a keychain holds
    \<^verbatim>\<open><\<close> or a line feed.
\<close>

theorem reconcile_twice:
  "((\<forall>p\<in>set pkgs. CHR ''<'' \<notin> set p \<and> CHR 0x0A \<notin> set p)
      \<and> updateManifest manifestContent pkgs = Some once
      \<and> \<not> testEmptyQueries once
      \<and> (js_includes manifestContent ''</queries>'' \<longrightarrow> js_includes manifestContent ''<queries'')
    \<longrightarrow> updateManifest once pkgs = Some once)
   \<and> ((\<forall>k\<in>set (bundleId # keychains). CHR ''<'' \<notin> set k \<and> CHR 0x0A \<notin> set k)
    \<longrightarrow> updateEntitlements (updateEntitlements content bundleId keychains) bundleId keychains =
          updateEntitlements content bundleId keychains)"
  using updateManifest_idempotent [of pkgs manifestContent once]
    updateEntitlements_idempotent [of bundleId keychains content]
  by blast

theorem reconcile_twice_witness:
  \<open>updateManifest
      ''<manifest>\<newline><queries>\<newline>  <package android:name="com.a" />\<newline></queries>\<newline><application/>\<newline></manifest>''
      [''com.a'']
    = Some ''<manifest>\<newline><queries>\<newline>  <package android:name="com.a" />\<newline></queries>\<newline><application/>\<newline></manifest>''
   \<and> updateEntitlements (updateEntitlements ''<dict>\<newline></dict>'' ''com.app'' [''com.k1''])
        ''com.app'' [''com.k1'']
    = updateEntitlements ''<dict>\<newline></dict>'' ''com.app'' [''com.k1'']\<close>
proof -
  let ?m = "''<manifest>\<newline><queries/>\<newline><application/>\<newline></manifest>''"
  let ?once = \<open>''<manifest>\<newline><queries>\<newline>  <package android:name="com.a" />\<newline></queries>\<newline><application/>\<newline></manifest>''\<close>
  have m: "(\<forall>p\<in>set [''com.a'']. CHR ''<'' \<notin> set p \<and> CHR 0x0A \<notin> set p)
      \<and> updateManifest ?m [''com.a''] = Some ?once
      \<and> \<not> testEmptyQueries ?once
      \<and> (js_includes ?m ''</queries>'' \<longrightarrow> js_includes ?m ''<queries'')"
    by (simp add: eval_simps)
  have e: "\<forall>k\<in>set [''com.app'', ''com.k1'']. CHR ''<'' \<notin> set k \<and> CHR 0x0A \<notin> set k"
    by simp
  note android = reconcile_twice [where pkgs = "[''com.a'']" and manifestContent = ?m
      and once = ?once, THEN conjunct1]
  note ios = reconcile_twice [where bundleId = "''com.app''" and keychains = "[''com.k1'']"
      and content = "''<dict>\<newline></dict>''", THEN conjunct2]
  from android [THEN mp, OF m] ios [THEN mp, OF e] show ?thesis by blast
qed

text \<open>
  C1 as stated fails for a manifest with two self-closing queries tags: the first run
  expands and fills the first one, and only the second run expands the other.
\<close>

theorem reconcile_twice_counterexample:
  \<open>updateManifest ''<manifest>\<newline><queries/>\<newline><queries/>\<newline></manifest>'' [''com.a'']
    = Some ''<manifest>\<newline><queries>\<newline>  <package android:name="com.a" />\<newline></queries>\<newline><queries/>\<newline></manifest>''
   \<and> updateManifest
      ''<manifest>\<newline><queries>\<newline>  <package android:name="com.a" />\<newline></queries>\<newline><queries/>\<newline></manifest>''
      [''com.a'']
    = Some ''<manifest>\<newline><queries>\<newline>  <package android:name="com.a" />\<newline></queries>\<newline><queries>\<newline></queries>\<newline></manifest>''\<close>
  by (simp add: eval_simps)

text \<open>
  The other side conditions are needed as well.  A stray close marker in a manifest
  without open marker is selected by the second run, which then drops the package-like
  line behind the application tag; a package name holding a close marker or a line
  feed is read back as an anchor or as two lines.  In each case the text reconciled
  once holds no self-closing tag, and the second run still changes it.
\<close>

lemma stray_close_marker_not_idempotent:
  \<open>updateManifest ''</queries>\<newline><application>\<newline><package android:name="x"/>'' [''a'']
    = Some ''</queries>\<newline><queries>\<newline>  <package android:name="a" />\<newline></queries>\<newline>\<newline><application>\<newline><package android:name="x"/>''
   \<and> updateManifest
      ''</queries>\<newline><queries>\<newline>  <package android:name="a" />\<newline></queries>\<newline>\<newline><application>\<newline><package android:name="x"/>''
      [''a'']
    = Some ''</queries>\<newline><queries>\<newline>  <package android:name="a" />\<newline></queries>\<newline>\<newline><application>''\<close>
  by (simp add: eval_simps)

lemma marker_in_package_not_idempotent:
  \<open>updateManifest ''<queries>\<newline></queries>'' [''a</queries>'']
    = Some ''<queries>\<newline>  <package android:name="a</queries>" />\<newline></queries>''
   \<and> updateManifest ''<queries>\<newline>  <package android:name="a</queries>" />\<newline></queries>''
      [''a</queries>'']
    = Some ''<queries>\<newline>  <package android:name="a</queries>" />\<newline>  <package android:name="a</queries>" />\<newline></queries>''\<close>
  by (simp add: eval_simps)

lemma line_feed_in_package_not_idempotent:
  \<open>updateManifest ''<queries>\<newline></queries>'' [''a\<newline>b'']
    = Some ''<queries>\<newline>  <package android:name="a\<newline>b" />\<newline></queries>''
   \<and> updateManifest ''<queries>\<newline>  <package android:name="a\<newline>b" />\<newline></queries>''
      [''a\<newline>b'']
    = Some ''<queries>\<newline>  <package android:name="a\<newline>b" />\<newline>b" />\<newline></queries>''\<close>
  by (simp add: eval_simps)

section \<open>Lines outside the section\<close>

text \<open>
  C2 does not hold of the code.  In the entitlements file the section only ends at a
  line with the array end tag: after a key followed by the self-closing array tag,
  every following line is left out, the closing dict and plist tags too.  In the
  manifest, when open and close marker stand on one line, the section never ends
  either, and a later line that looks like a package entry, here in a comment, is
  left out.
\<close>

theorem frame_failing_inputs:
  \<open>updateEntitlements
      ''<plist>\<newline><dict>\<newline><key>keychain-access-groups</key>\<newline><array/>\<newline></dict>\<newline></plist>''
      ''com.app'' [''com.k1'']
    = join_nl [''<plist>'', ''<dict>'', ''<key>keychain-access-groups</key>'',
        CHR 0x09 # ''<array>'',
        CHR 0x09 # CHR 0x09 # ''<string>$(AppIdentifierPrefix)com.app</string>'',
        CHR 0x09 # CHR 0x09 # ''<string>$(AppIdentifierPrefix)com.k1</string>'']
   \<and> updateManifest
      ''<manifest>\<newline><queries><package android:name="com.old" /></queries>\<newline><!-- <package android:name="com.legacy" /> -->\<newline><application/>\<newline></manifest>''
      [''com.a'']
    = Some (join_nl [''<manifest>'', ''<queries><package android:name="com.old" /></queries>'',
        ''  <package android:name="com.a" />'', ''<application/>'', ''</manifest>''])\<close>
  by (simp add: eval_simps updateEntitlements_def keychainKey_def arrayOpenLine_def groupLine_def)

end
